theory Spec2Isabelle
  imports Main "HOL-Library.Sublist"
begin

section \<open>The read-write lock (src/generic/rwmutex.ts)\<close>

text \<open>
  \<open>RWMutex\<close> is cooperative: \<open>rLock(cb)\<close> and \<open>lock(cb)\<close> take a callback that is
  called when the lock is granted, at once or later from a task queued with
  \<open>setImmediate\<close>. A callback is kept by the role it was registered in and the number of
  the client that passed it: \<open>ReaderCb c\<close> was passed to \<open>rLock\<close>, \<open>WriterCb c\<close> was passed
  to \<open>lock\<close>, and \<open>LockBody c\<close> is the arrow function that \<open>lock(cb)\<close> hands to the base
  mutex (lines 42-50), closed over \<open>cb = WriterCb c\<close>.
\<close>

datatype callback = is_ReaderCb: ReaderCb nat | is_WriterCb: WriterCb nat | is_LockBody: LockBody nat

datatype lock_error = RUnlockNonLocked | UnlockNonLocked | MutexNonLocked

text \<open>\<open>const rwmutexMaxReaders = 1 << 30\<close>. The counters are JavaScript numbers, which
  hold every integer of this size exactly, so they are unbounded integers here.\<close>

definition rwmutexMaxReaders :: int where
  "rwmutexMaxReaders = 2 ^ 30"

text \<open>
  The fields of \<open>RWMutex\<close>, the two fields of the base \<open>Mutex\<close> it extends, and the queue
  of tasks handed to \<open>setImmediate\<close>. The last two fields are observers, not program
  state: \<open>activeReaders\<close> counts the reader callbacks that were called and have not
  released since, \<open>activeWriters\<close> the writer callbacks.
\<close>

record rwmutex =
  locked :: bool
  waiters :: "callback list"
  readerWaiters :: "callback list"
  writerWaiters :: "callback list"
  readerCount :: int
  readerWait :: int
  immediates :: "callback list"
  activeReaders :: nat
  activeWriters :: nat

definition new_rwmutex :: rwmutex where
  "new_rwmutex = \<lparr>locked = False, waiters = [], readerWaiters = [], writerWaiters = [],
     readerCount = 0, readerWait = 0, immediates = [], activeReaders = 0, activeWriters = 0\<rparr>"

text \<open>Calling a client's callback grants it the lock in its role.\<close>

fun grant :: "callback \<Rightarrow> rwmutex \<Rightarrow> rwmutex" where
  "grant (ReaderCb c) m = m\<lparr>activeReaders := activeReaders m + 1\<rparr>"
| "grant (WriterCb c) m = m\<lparr>activeWriters := activeWriters m + 1\<rparr>"
| "grant (LockBody c) m = m"

text \<open>The body of the arrow function in \<open>lock\<close> (lines 43-49).\<close>

definition lock_body :: "nat \<Rightarrow> rwmutex \<Rightarrow> rwmutex" where
  "lock_body c m =
     (let m1 = m\<lparr>readerWait := readerWait m + readerCount m\<rparr>;
          m2 = m1\<lparr>readerCount := readerCount m1 - rwmutexMaxReaders\<rparr>
      in if readerWait m2 \<noteq> 0
         then m2\<lparr>writerWaiters := writerWaiters m2 @ [WriterCb c]\<rparr>
         else grant (WriterCb c) m2)"

fun invoke :: "callback \<Rightarrow> rwmutex \<Rightarrow> rwmutex" where
  "invoke (LockBody c) m = lock_body c m"
| "invoke cb m = grant cb m"

text \<open>
  Modelled from the spec: \<open>Mutex.lock\<close> of the base class (\<open>./mutex\<close>), which is not among
  the source files. Section 4.4: ``a FIFO queue of pending acquirers; exactly one
  holder''. A caller that finds the mutex held is queued; otherwise it takes the mutex and
  its callback runs at once.
\<close>

definition mutex_lock :: "callback \<Rightarrow> rwmutex \<Rightarrow> rwmutex" where
  "mutex_lock cb m =
     (if locked m then m\<lparr>waiters := waiters m @ [cb]\<rparr>
      else invoke cb (m\<lparr>locked := True\<rparr>))"

text \<open>
  Modelled from the spec: \<open>Mutex.unlock\<close> of the base class, which is not among the source
  files. Section 4.4: ``release hands off to the next queued acquirer, if any, on a future
  scheduling tick (never synchronously in the same call stack as release)''; the mutex
  stays held for the acquirer it is handed to. Releasing a mutex that is not held is
  ``a detectable misuse'', an error.
\<close>

definition mutex_unlock :: "rwmutex \<Rightarrow> lock_error + rwmutex" where
  "mutex_unlock m =
     (if \<not> locked m then Inl MutexNonLocked
      else case waiters m of
             [] \<Rightarrow> Inr (m\<lparr>locked := False\<rparr>)
           | nxt # rest \<Rightarrow> Inr (m\<lparr>waiters := rest, immediates := immediates m @ [nxt]\<rparr>))"

text \<open>
  Modelled from the spec: \<open>setImmediate\<close> (\<open>../generic/setImmediate\<close>), which is not among
  the source files. A task given to it is appended to \<open>immediates\<close> and runs on ``a future
  scheduling tick'': \<open>tick\<close> runs the oldest task, if there is one.
\<close>

definition tick :: "rwmutex \<Rightarrow> rwmutex" where
  "tick m =
     (case immediates m of
        [] \<Rightarrow> m
      | cb # rest \<Rightarrow> invoke cb (m\<lparr>immediates := rest\<rparr>))"

text \<open>\<open>rLock\<close>, lines 16-23.\<close>

definition rLock :: "nat \<Rightarrow> rwmutex \<Rightarrow> rwmutex" where
  "rLock c m =
     (let m1 = m\<lparr>readerCount := readerCount m + 1\<rparr>
      in if readerCount m1 < 0
         then m1\<lparr>readerWaiters := readerWaiters m1 @ [ReaderCb c]\<rparr>
         else invoke (ReaderCb c) m1)"

text \<open>\<open>rUnlock\<close>, lines 25-39. The \<open>throw\<close> is the \<open>Inl\<close> result.\<close>

definition rUnlock :: "rwmutex \<Rightarrow> lock_error + rwmutex" where
  "rUnlock m =
     (if readerCount m = 0 \<or> readerCount m = - rwmutexMaxReaders then Inl RUnlockNonLocked
      else
        let m1 = m\<lparr>readerCount := readerCount m - 1\<rparr>
        in if readerCount m1 < 0
           then
             let m2 = m1\<lparr>readerWait := readerWait m1 - 1\<rparr>
             in if readerWait m2 = 0
                then (case writerWaiters m2 of
                        [] \<Rightarrow> Inr m2
                      | nxt # rest \<Rightarrow>
                          Inr (m2\<lparr>writerWaiters := rest, immediates := immediates m2 @ [nxt]\<rparr>))
                else Inr m2
           else Inr m1)"

text \<open>\<open>lock\<close>, lines 41-51.\<close>

definition lock :: "nat \<Rightarrow> rwmutex \<Rightarrow> rwmutex" where
  "lock c m = mutex_lock (LockBody c) m"

text \<open>The \<open>while (i < count)\<close> loop of \<open>unlock\<close> (lines 59-67): \<open>count\<close> times, shift a
  reader callback off the queue and hand it to \<open>setImmediate\<close>.\<close>

fun wake_readers :: "nat \<Rightarrow> rwmutex \<Rightarrow> rwmutex" where
  "wake_readers 0 m = m"
| "wake_readers (Suc i) m =
     (case readerWaiters m of
        [] \<Rightarrow> wake_readers i m
      | cb # rest \<Rightarrow>
          wake_readers i (m\<lparr>readerWaiters := rest, immediates := immediates m @ [cb]\<rparr>))"

text \<open>\<open>unlock\<close>, lines 53-70.\<close>

definition unlock :: "rwmutex \<Rightarrow> lock_error + rwmutex" where
  "unlock m =
     (if readerCount m \<ge> 0 then Inl UnlockNonLocked
      else
        let m1 = m\<lparr>readerCount := readerCount m + rwmutexMaxReaders\<rparr>;
            m2 = wake_readers (length (readerWaiters m1)) m1
        in mutex_unlock m2)"

subsection \<open>Sequences of calls\<close>

text \<open>
  A client calls \<open>rLock\<close>, \<open>rUnlock\<close>, \<open>lock\<close> or \<open>unlock\<close>, or the event loop runs the next
  queued task. A release that returns gives up one grant of its role.
\<close>

datatype event = RLock nat | RUnlock | Lock nat | Unlock | Tick

fun step :: "event \<Rightarrow> rwmutex \<Rightarrow> lock_error + rwmutex" where
  "step (RLock c) m = Inr (rLock c m)"
| "step RUnlock m = map_sum id (\<lambda>m'. m'\<lparr>activeReaders := activeReaders m' - 1\<rparr>) (rUnlock m)"
| "step (Lock c) m = Inr (lock c m)"
| "step Unlock m = map_sum id (\<lambda>m'. m'\<lparr>activeWriters := activeWriters m' - 1\<rparr>) (unlock m)"
| "step Tick m = Inr (tick m)"

text \<open>A sequence is balanced when every release is made by a holder: \<open>rUnlock\<close> is only
  called while some reader holds the lock, \<open>unlock\<close> only while a writer does.\<close>

fun balanced :: "event \<Rightarrow> rwmutex \<Rightarrow> bool" where
  "balanced RUnlock m = (0 < activeReaders m)"
| "balanced Unlock m = (0 < activeWriters m)"
| "balanced e m = True"

text \<open>The read acquisitions that are outstanding: granted and not released, queued behind
  a writer, or woken and waiting for their tick. Likewise the writers that have claimed
  the lock: holding it, waiting for the readers before them to drain, or woken.\<close>

definition outstanding_reads :: "rwmutex \<Rightarrow> nat" where
  "outstanding_reads m =
     activeReaders m + length (readerWaiters m) + length (filter is_ReaderCb (immediates m))"

definition claimed_writers :: "rwmutex \<Rightarrow> nat" where
  "claimed_writers m =
     activeWriters m + length (writerWaiters m) + length (filter is_WriterCb (immediates m))"

text \<open>The lock packs the reader count and the writer flag into one counter, so it has
  room for fewer than \<open>rwmutexMaxReaders\<close> outstanding read acquisitions.\<close>

fun within_capacity :: "event \<Rightarrow> rwmutex \<Rightarrow> bool" where
  "within_capacity (RLock c) m = (int (outstanding_reads m) + 1 < rwmutexMaxReaders)"
| "within_capacity e m = True"

definition permitted :: "event \<Rightarrow> rwmutex \<Rightarrow> bool" where
  "permitted e m = (balanced e m \<and> within_capacity e m)"

text \<open>\<open>exec ok es m\<close> runs the calls \<open>es\<close> from \<open>m\<close>; it is \<open>None\<close> when a call is not
  allowed by \<open>ok\<close> in the state it is made in, or raises.\<close>

fun exec :: "(event \<Rightarrow> rwmutex \<Rightarrow> bool) \<Rightarrow> event list \<Rightarrow> rwmutex \<Rightarrow> rwmutex option" where
  "exec ok [] m = Some m"
| "exec ok (e # es) m =
     (if ok e m
      then (case step e m of Inl err \<Rightarrow> None | Inr m' \<Rightarrow> exec ok es m')
      else None)"

definition mutual_exclusion :: "rwmutex \<Rightarrow> bool" where
  "mutual_exclusion m = (activeWriters m \<le> 1 \<and> (0 < activeWriters m \<longrightarrow> activeReaders m = 0))"

section \<open>The on-demand loader (the \<open>DynamicRequest\<close> backend)\<close>

subsection \<open>Paths\<close>

text \<open>
  \<open>path.split('/')\<close> cuts a string at every slash; \<open>.filter(Boolean)\<close> drops the empty
  pieces. An absolute path is kept as the list of its segments, the root being \<open>[]\<close>.
\<close>

fun split_slash :: "string \<Rightarrow> string list" where
  "split_slash [] = [[]]"
| "split_slash (c # cs) =
     (if c = CHR ''/'' then [] # split_slash cs
      else (case split_slash cs of
              [] \<Rightarrow> [[c]]
            | w # ws \<Rightarrow> (c # w) # ws))"

definition segments :: "string \<Rightarrow> string list" where
  "segments s = filter (\<lambda>w. w \<noteq> []) (split_slash s)"

text \<open>
  Modelled from the spec: \<open>paths.join\<close> of the \<open>path\<close> module, which is not among the
  source files. Section 4.1 speaks of ``the accumulated path'': joining a segment to a
  path appends it. The first element of \<open>pathList\<close>, \<open>'/'\<close>, has no segment of its own and
  so yields the root.
\<close>

definition join_path :: "string list \<Rightarrow> string \<Rightarrow> string list" where
  "join_path p s = p @ segments s"

subsection \<open>The index of inodes\<close>

datatype file_type = FILE | DIRECTORY | SYMLINK

text \<open>\<open>Stats\<close>: the type of the item, its size (\<open>- 1\<close> when unknown), its permission bits
  and the cached content, absent at first.\<close>

record stats =
  itemType :: file_type
  fsize :: int
  mode :: nat
  fileData :: "nat list option"

text \<open>
  Modelled from the spec: the classes \<open>FileInode\<close> and \<open>DirInode\<close> of
  \<open>../generic/file_index\<close>, which is not among the source files. Section 3: a file inode
  owns its \<open>Stats\<close>; a directory inode owns the names of its children and the flag
  \<open>entriesLoaded\<close>; both carry the extend-data of the listing that produced them.
\<close>

datatype 'x inode =
    FileInode stats "'x option"
  | DirInode "string list" bool "'x option"

type_synonym 'x file_index = "string list \<Rightarrow> 'x inode option"

text \<open>
  Modelled from the spec: \<open>new FileIndex()\<close>, which is not among the source files.
  Section 3: ``root Directory Inode created at construction''.
\<close>

definition new_index :: "'x file_index" where
  "new_index = Map.empty([] \<mapsto> DirInode [] False None)"

text \<open>
  Modelled from the spec: \<open>FileIndex.getInode\<close>, which is not among the source files.
  Section 2: ``a one-directional mapping from absolute path to an Inode. Lookup by exact
  path''.
\<close>

definition getInode :: "'x file_index \<Rightarrow> string list \<Rightarrow> 'x inode option" where
  "getInode idx p = idx p"

text \<open>
  Modelled from the spec: \<open>FileIndex.addPathFast\<close>, which is not among the source files.
  Section 2: ``insertion attaches a new child under an existing parent''. Section 3:
  ``insertion requires the parent directory already present; no removal or path-update
  operations''; inodes ``are created exactly once'', so an insertion at a path that is
  taken changes nothing.
\<close>

definition addPathFast :: "'x file_index \<Rightarrow> string list \<Rightarrow> 'x inode \<Rightarrow> 'x file_index" where
  "addPathFast idx p node =
     (if p = [] then idx
      else case idx (butlast p) of
             Some (DirInode names loaded x) \<Rightarrow>
               (if idx p \<noteq> None then idx
                else idx(butlast p \<mapsto> DirInode (names @ [last p]) loaded x, p \<mapsto> node))
           | _ \<Rightarrow> idx)"

text \<open>\<open>inode.entriesLoaded = true\<close> (line 204) on the directory inode at \<open>p\<close>.\<close>

definition mark_loaded :: "'x file_index \<Rightarrow> string list \<Rightarrow> 'x file_index" where
  "mark_loaded idx p =
     (case idx p of
        Some (DirInode names loaded x) \<Rightarrow> idx(p \<mapsto> DirInode names True x)
      | _ \<Rightarrow> idx)"

subsection \<open>Providers\<close>

text \<open>
  What a provider call comes to: its promise is fulfilled, its promise is rejected, or the
  call throws before it returns a promise. \<open>JsError msg\<close> is an error whose \<open>message\<close> is
  \<open>msg\<close>.
\<close>

datatype js_error = JsError string

datatype 'a settled = Resolved 'a | Rejected js_error | Thrown js_error

type_synonym 'x file_entry = "string \<times> file_type \<times> 'x option"

type_synonym 'x dir_provider = "string list \<Rightarrow> 'x option \<Rightarrow> 'x file_entry list settled"

type_synonym 'x stat_provider = "string list \<Rightarrow> 'x option \<Rightarrow> int settled"

type_synonym 'x file_provider = "string list \<Rightarrow> 'x option \<Rightarrow> nat list settled"

subsection \<open>\<open>loadEntry\<close>\<close>

text \<open>\<open>const pathList = ['/'].concat(path.split('/').filter(Boolean)).slice(0, loadBase ?
  undefined : -1)\<close>, lines 171-173.\<close>

definition pathList :: "string \<Rightarrow> bool \<Rightarrow> string list" where
  "pathList path loadBase =
     (let l = ''/'' # segments path in if loadBase then l else butlast l)"

text \<open>The body of the \<open>forEach\<close>, lines 193-203: the inode for one entry of a listing is
  inserted under the directory \<open>p\<close>. \<open>0x16D\<close> is 365.\<close>

definition entry_node :: "'x file_entry \<Rightarrow> 'x inode" where
  "entry_node e =
     (case e of (name, fileType, extendData) \<Rightarrow>
        if fileType = DIRECTORY then DirInode [] False extendData
        else FileInode \<lparr>itemType = FILE, fsize = - 1, mode = 365, fileData = None\<rparr> extendData)"

definition add_entry :: "string list \<Rightarrow> 'x file_index \<Rightarrow> 'x file_entry \<Rightarrow> 'x file_index" where
  "add_entry p idx e = addPathFast idx (join_path p (fst e)) (entry_node e)"

text \<open>
  How the promise of \<open>loadEntry\<close> is settled: \<open>resolve()\<close> of line 178 after the last
  segment, \<open>resolve()\<close> of line 184 at a path that is not a directory in the index, or
  \<open>reject\<close> with the provider's failure.
\<close>

datatype walk_end = WalkedAll | StoppedAt "string list" | LoadFailed js_error

text \<open>
  \<open>next(index)\<close>, lines 176-208, as a recursion over the segments from \<open>index\<close> on, with
  the accumulated path \<open>p\<close>. Each step goes on to the next segment only with the outcome
  of the listing of this one. The result is how the promise is settled, the index, and
  the paths for which the listing provider was called, in the order of the calls.
  \<open>this._readDirectory\<close> is \<open>wrap(opts.readDirectory)\<close>; one walk asks for each path at
  most once, so each of its calls is a call of the provider. A listing that throws
  inside \<open>next\<close> rejects the promise as a rejected listing does: inside the promise
  executor for the first segment, through \<open>.catch(reject)\<close> for a later one.
\<close>

fun walk :: "'x dir_provider \<Rightarrow> string list \<Rightarrow> string list \<Rightarrow> 'x file_index \<Rightarrow>
    walk_end \<times> 'x file_index \<times> string list list" where
  "walk readDirectory [] p idx = (WalkedAll, idx, [])"
| "walk readDirectory (s # rest) p idx =
     (let p' = join_path p s in
      case getInode idx p' of
        Some (DirInode names loaded x) \<Rightarrow>
          if loaded then walk readDirectory rest p' idx
          else (case readDirectory p' x of
                  Resolved entryList \<Rightarrow>
                    (let idx1 = foldl (add_entry p') idx entryList;
                         idx2 = mark_loaded idx1 p'
                     in case walk readDirectory rest p' idx2 of
                          (e, idx3, calls) \<Rightarrow> (e, idx3, p' # calls))
                | Rejected err \<Rightarrow> (LoadFailed err, idx, [p'])
                | Thrown err \<Rightarrow> (LoadFailed err, idx, [p']))
      | _ \<Rightarrow> (StoppedAt p', idx, []))"

fun promise_of :: "walk_end \<Rightarrow> js_error + unit" where
  "promise_of WalkedAll = Inr ()"
| "promise_of (StoppedAt p) = Inr ()"
| "promise_of (LoadFailed err) = Inl err"

definition loadEntry :: "'x dir_provider \<Rightarrow> string \<Rightarrow> bool \<Rightarrow> 'x file_index \<Rightarrow>
    (js_error + unit) \<times> 'x file_index \<times> string list list" where
  "loadEntry readDirectory path loadBase idx =
     (case walk readDirectory (pathList path loadBase) [] idx of
        (e, idx', calls) \<Rightarrow> (promise_of e, idx', calls))"

subsection \<open>The raw operations\<close>

datatype error_code = EPERM | ENOENT | EISDIR | ENOTDIR | EEXIST | EINVAL

datatype api_error = ApiError error_code string

text \<open>\<open>FileFlag\<close> and \<open>ActionType\<close> (\<open>../core/file_flag\<close>) are not among the source files;
  a flag is taken as what its two methods used here, \<open>isWriteable()\<close> and
  \<open>pathExistsAction()\<close>, return.\<close>

datatype action_type = NOP | THROW_EXCEPTION | TRUNCATE_FILE | CREATE_FILE

record file_flag =
  isWriteable :: bool
  pathExistsAction :: action_type

text \<open>What \<open>open\<close> hands to \<open>cb\<close>: \<open>new NoSyncFile(self, path, flags, Stats.clone(stats),
  buffer)\<close>.\<close>

record no_sync_file =
  nsf_path :: string
  nsf_flag :: file_flag
  nsf_stats :: stats
  nsf_buffer :: "nat list"

text \<open>The stats of a directory inode (\<open>inode.getStats()\<close>) are a parameter of \<open>stat\<close>.
  \<open>e && e.message || ''\<close> is the message of the error.\<close>

fun message :: "js_error \<Rightarrow> string" where
  "message (JsError msg) = msg"

text \<open>
  A raw operation ends by calling \<open>cb\<close> once, or not at all when a provider call throws
  inside it: the first component is what \<open>cb\<close> was called with, if it was.
  \<open>stat\<close>, lines 213-239.
\<close>

definition raw_stat :: "'x stat_provider option \<Rightarrow> stats \<Rightarrow> string \<Rightarrow> 'x file_index \<Rightarrow>
    (api_error + stats) option \<times> 'x file_index" where
  "raw_stat statp dir_stats path idx =
     (case getInode idx (segments path) of
        None \<Rightarrow> (Some (Inl (ApiError ENOENT path)), idx)
      | Some (FileInode st x) \<Rightarrow>
          (case statp of
             Some f \<Rightarrow>
               if fsize st < 0
               then (case f (segments path) x of
                       Resolved sz \<Rightarrow>
                         (Some (Inr (st\<lparr>fsize := sz\<rparr>)),
                          idx(segments path \<mapsto> FileInode (st\<lparr>fsize := sz\<rparr>) x))
                     | Rejected e \<Rightarrow> (Some (Inl (ApiError EINVAL (message e))), idx)
                     | Thrown e \<Rightarrow> (None, idx))
               else (Some (Inr st), idx)
           | None \<Rightarrow> (Some (Inr st), idx))
      | Some (DirInode names loaded x) \<Rightarrow> (Some (Inr dir_stats), idx))"

text \<open>\<open>open\<close>, lines 241-279.\<close>

definition raw_open :: "'x file_provider \<Rightarrow> string \<Rightarrow> file_flag \<Rightarrow> 'x file_index \<Rightarrow>
    (api_error + no_sync_file) option \<times> 'x file_index" where
  "raw_open readFile path flags idx =
     (if isWriteable flags then (Some (Inl (ApiError EPERM path)), idx)
      else case getInode idx (segments path) of
        None \<Rightarrow> (Some (Inl (ApiError ENOENT path)), idx)
      | Some (FileInode st x) \<Rightarrow>
          (case pathExistsAction flags of
             THROW_EXCEPTION \<Rightarrow> (Some (Inl (ApiError EEXIST path)), idx)
           | TRUNCATE_FILE \<Rightarrow> (Some (Inl (ApiError EEXIST path)), idx)
           | NOP \<Rightarrow>
               (case fileData st of
                  Some buf \<Rightarrow>
                    (Some (Inr \<lparr>nsf_path = path, nsf_flag = flags, nsf_stats = st, nsf_buffer = buf\<rparr>),
                     idx)
                | None \<Rightarrow>
                    (case readFile (segments path) x of
                       Resolved content \<Rightarrow>
                         (let st' = st\<lparr>fsize := int (length content), fileData := Some content\<rparr>
                          in (Some (Inr \<lparr>nsf_path = path, nsf_flag = flags, nsf_stats = st',
                                       nsf_buffer = content\<rparr>),
                              idx(segments path \<mapsto> FileInode st' x)))
                     | Rejected e \<Rightarrow> (Some (Inl (ApiError EINVAL (message e))), idx)
                     | Thrown e \<Rightarrow> (None, idx)))
           | CREATE_FILE \<Rightarrow> (Some (Inl (ApiError EINVAL ''Invalid FileMode object.'')), idx))
      | Some (DirInode names loaded x) \<Rightarrow> (Some (Inl (ApiError EISDIR path)), idx))"

text \<open>\<open>readdir\<close>, lines 281-298.\<close>

definition raw_readdir :: "string \<Rightarrow> 'x file_index \<Rightarrow>
    (api_error + string list) option \<times> 'x file_index" where
  "raw_readdir path idx =
     (case getInode idx (segments path) of
        None \<Rightarrow> (Some (Inl (ApiError ENOENT path)), idx)
      | Some (DirInode names loaded x) \<Rightarrow>
          if loaded then (Some (Inr names), idx)
          else (Some (Inl (ApiError EINVAL ''Failed to readdir'')), idx)
      | Some (FileInode st x) \<Rightarrow> (Some (Inl (ApiError ENOTDIR path)), idx))"

subsection \<open>The wrapped operations\<close>

text \<open>
  \<open>finallyPromise(promise, onFinally)\<close>, lines 30-39, for a promise that has settled as
  \<open>outcome\<close>: either handler of \<open>promise.then\<close> runs \<open>onFinally\<close> and then passes the value
  or the error on. \<open>onFinally\<close> acts on the state \<open>s\<close> and yields what it did (here: what
  \<open>cb\<close> was called with); the result is the outcome of the promise that
  \<open>finallyPromise\<close> returns, what \<open>onFinally\<close> did, and the state.
\<close>

definition finallyPromise :: "('e + 'a) \<Rightarrow> ('s \<Rightarrow> 'r \<times> 's) \<Rightarrow> 's \<Rightarrow> ('e + 'a) \<times> 'r \<times> 's" where
  "finallyPromise outcome onFinally s =
     (case outcome of
        Inr v \<Rightarrow> (case onFinally s of (r, s') \<Rightarrow> (Inr v, r, s'))
      | Inl err \<Rightarrow> (case onFinally s of (r, s') \<Rightarrow> (Inl err, r, s')))"

text \<open>
  Lines 335-342 replace \<open>stat\<close>, \<open>open\<close> and \<open>readdir\<close> on the prototype:
  \<open>finallyPromise(this.loadEntry(path, method === 'readdir'), () => _rawFn.call(this, path,
  ...args))\<close>. The promise that \<open>finallyPromise\<close> returns is dropped. The result is what
  \<open>cb\<close> was called with, the index, and the paths the listing provider was called for.
\<close>

definition wrapped :: "'x dir_provider \<Rightarrow> bool \<Rightarrow> ('x file_index \<Rightarrow> 'r \<times> 'x file_index) \<Rightarrow>
    string \<Rightarrow> 'x file_index \<Rightarrow> 'r \<times> 'x file_index \<times> string list list" where
  "wrapped readDirectory loadBase rawFn path idx =
     (case loadEntry readDirectory path loadBase idx of
        (outcome, idx1, calls) \<Rightarrow>
          (case finallyPromise outcome rawFn idx1 of
             (dropped, r, idx2) \<Rightarrow> (r, idx2, calls)))"

definition stat :: "'x dir_provider \<Rightarrow> 'x stat_provider option \<Rightarrow> stats \<Rightarrow> string \<Rightarrow>
    'x file_index \<Rightarrow> (api_error + stats) option \<times> 'x file_index \<times> string list list" where
  "stat readDirectory statp dir_stats path idx =
     wrapped readDirectory False (raw_stat statp dir_stats path) path idx"

definition open_file :: "'x dir_provider \<Rightarrow> 'x file_provider \<Rightarrow> string \<Rightarrow> file_flag \<Rightarrow>
    'x file_index \<Rightarrow> (api_error + no_sync_file) option \<times> 'x file_index \<times> string list list" where
  "open_file readDirectory readFile path flags idx =
     wrapped readDirectory False (raw_open readFile path flags) path idx"

definition readdir :: "'x dir_provider \<Rightarrow> string \<Rightarrow> 'x file_index \<Rightarrow>
    (api_error + string list) option \<times> 'x file_index \<times> string list list" where
  "readdir readDirectory path idx =
     wrapped readDirectory True (raw_readdir path) path idx"

section \<open>The request coalescer (\<open>wrap\<close>)\<close>

text \<open>
  \<open>wrap\<close> and \<open>finallyPromise\<close> are written with promises, and when the cache entry goes
  depends on when the reactions of a promise run. So the promises are modelled as
  JavaScript has them: a promise is pending, with the reactions registered on it by
  \<open>then\<close>, or settled; settling a promise does not run its reactions but queues one job
  for each; the jobs run later, one at a time, first in, first out.
\<close>

datatype 'v jsval = Undefined | Val 'v

datatype 'v outcome = Fulfilled "'v jsval" | RejectedWith js_error

text \<open>
  The functions that are passed to \<open>then\<close>. The first four are the arrow functions of
  \<open>finallyPromise\<close> (lines 32-37), with \<open>onFinally\<close> the arrow function of \<open>wrap\<close> that
  deletes the key (lines 50-52): \<open>ThenFinally key\<close> and \<open>CatchFinally key\<close> are the two
  handlers of the outer \<open>then\<close>, \<open>ReturnValue v\<close> is \<open>() => value\<close> and \<open>ThrowError err\<close> is
  \<open>() => { throw err; }\<close>. \<open>PassOn\<close> stands for a handler that was not given. \<open>ResolveOf d\<close>
  and \<open>RejectOf d\<close> are the resolving functions of the promise \<open>d\<close>, which the runtime
  passes to \<open>then\<close> when \<open>d\<close> is resolved with another promise.
\<close>

datatype 'v handler =
    ThenFinally string
  | CatchFinally string
  | ReturnValue "'v jsval"
  | ThrowError js_error
  | PassOn
  | ResolveOf nat
  | RejectOf nat

text \<open>A reaction is what one \<open>then\<close> registered: the two handlers and the promise that
  \<open>then\<close> returned.\<close>

type_synonym 'v reaction = "'v handler \<times> 'v handler \<times> nat"

datatype 'v promise_state = Pending "'v reaction list" | Settled "'v outcome"

text \<open>A job runs a handler on the outcome of the promise it was registered on and
  settles the promise of that \<open>then\<close> with the result; or, for a promise \<open>d\<close> resolved
  with a promise \<open>r\<close>, it calls \<open>r.then\<close> with the resolving functions of \<open>d\<close>.\<close>

datatype 'v job = Reaction "'v handler" "'v outcome" nat | Adopt nat nat

text \<open>
  The state: the \<open>cache\<close> of \<open>wrap\<close> (a \<open>Map\<close> from key to promise), the promises by
  number, the next unused number, the queue of jobs, and, as an observer, the keys the
  provider \<open>fn\<close> was called with.
\<close>

record 'v runtime =
  cache :: "string \<Rightarrow> nat option"
  promises :: "nat \<Rightarrow> 'v promise_state"
  fresh :: nat
  microtasks :: "'v job list"
  invoked :: "string list"

definition new_runtime :: "'v runtime" where
  "new_runtime = \<lparr>cache = Map.empty, promises = (\<lambda>n. Pending []), fresh = 0,
     microtasks = [], invoked = []\<rparr>"

definition new_promise :: "'v promise_state \<Rightarrow> 'v runtime \<Rightarrow> nat \<times> 'v runtime" where
  "new_promise st s = (fresh s, s\<lparr>promises := (promises s)(fresh s := st), fresh := fresh s + 1\<rparr>)"

fun job_for :: "'v outcome \<Rightarrow> 'v reaction \<Rightarrow> 'v job" where
  "job_for (Fulfilled v) (onFulfilled, onRejected, d) = Reaction onFulfilled (Fulfilled v) d"
| "job_for (RejectedWith e) (onFulfilled, onRejected, d) = Reaction onRejected (RejectedWith e) d"

text \<open>Settling a pending promise queues a job for each of its reactions; settling a
  settled promise does nothing.\<close>

definition settle :: "nat \<Rightarrow> 'v outcome \<Rightarrow> 'v runtime \<Rightarrow> 'v runtime" where
  "settle p out s =
     (case promises s p of
        Pending rs \<Rightarrow>
          s\<lparr>promises := (promises s)(p := Settled out),
            microtasks := microtasks s @ map (job_for out) rs\<rparr>
      | Settled already \<Rightarrow> s)"

text \<open>\<open>p.then(onFulfilled, onRejected)\<close>: a new promise \<open>d\<close>; the reaction is stored on \<open>p\<close>
  while \<open>p\<close> is pending, and queued as a job at once when \<open>p\<close> has settled.\<close>

definition then_promise :: "nat \<Rightarrow> 'v handler \<Rightarrow> 'v handler \<Rightarrow> 'v runtime \<Rightarrow> nat \<times> 'v runtime" where
  "then_promise p onFulfilled onRejected s =
     (case new_promise (Pending []) s of
        (d, s1) \<Rightarrow>
          (case promises s1 p of
             Pending rs \<Rightarrow>
               (d, s1\<lparr>promises := (promises s1)(p := Pending (rs @ [(onFulfilled, onRejected, d)]))\<rparr>)
           | Settled out \<Rightarrow>
               (d, s1\<lparr>microtasks := microtasks s1 @ [job_for out (onFulfilled, onRejected, d)]\<rparr>)))"

text \<open>What running a handler comes to: it returns a value, returns a promise, or throws.\<close>

datatype 'v completion = Returns "'v jsval" | ReturnsPromise nat | Throws js_error

text \<open>
  The body of \<open>finallyPromise\<close>'s handlers, for \<open>onFinally = () => { cache.delete(key); }\<close>:
  \<open>Promise.resolve(onFinally()).then(h)\<close>. \<open>onFinally()\<close> deletes the key and returns
  \<open>undefined\<close>; \<open>Promise.resolve\<close> of it is a new fulfilled promise; the handler returns
  the promise of the \<open>then\<close>.
\<close>

definition after_finally :: "string \<Rightarrow> 'v handler \<Rightarrow> 'v runtime \<Rightarrow> 'v completion \<times> 'v runtime" where
  "after_finally key h s =
     (let s1 = s\<lparr>cache := (cache s)(key := None)\<rparr>
      in case new_promise (Settled (Fulfilled Undefined)) s1 of
           (q, s2) \<Rightarrow>
             (case then_promise q h PassOn s2 of
                (r, s3) \<Rightarrow> (ReturnsPromise r, s3)))"

fun run_handler :: "'v handler \<Rightarrow> 'v outcome \<Rightarrow> 'v runtime \<Rightarrow> 'v completion \<times> 'v runtime" where
  "run_handler (ThenFinally key) (Fulfilled v) s = after_finally key (ReturnValue v) s"
| "run_handler (CatchFinally key) (RejectedWith e) s = after_finally key (ThrowError e) s"
| "run_handler (ReturnValue v) out s = (Returns v, s)"
| "run_handler (ThrowError e) out s = (Throws e, s)"
| "run_handler (ResolveOf d) (Fulfilled v) s = (Returns Undefined, settle d (Fulfilled v) s)"
| "run_handler (RejectOf d) (RejectedWith e) s = (Returns Undefined, settle d (RejectedWith e) s)"
| "run_handler h (Fulfilled v) s = (Returns v, s)"
| "run_handler h (RejectedWith e) s = (Throws e, s)"

text \<open>The promise \<open>d\<close> of a \<open>then\<close> is settled with what the handler returned or threw;
  when the handler returned a promise, \<open>d\<close> adopts it through one more job.\<close>

fun run_job :: "'v job \<Rightarrow> 'v runtime \<Rightarrow> 'v runtime" where
  "run_job (Reaction h out d) s =
     (case run_handler h out s of
        (Returns v, s1) \<Rightarrow> settle d (Fulfilled v) s1
      | (Throws e, s1) \<Rightarrow> settle d (RejectedWith e) s1
      | (ReturnsPromise r, s1) \<Rightarrow> s1\<lparr>microtasks := microtasks s1 @ [Adopt d r]\<rparr>)"
| "run_job (Adopt d r) s = snd (then_promise r (ResolveOf d) (RejectOf d) s)"

definition microtask :: "'v runtime \<Rightarrow> 'v runtime" where
  "microtask s =
     (case microtasks s of
        [] \<Rightarrow> s
      | j # rest \<Rightarrow> run_job j (s\<lparr>microtasks := rest\<rparr>))"

text \<open>
  What the provider \<open>fn\<close> does when it is called: it returns a plain value, it returns a
  promise that it settles later, or it throws.
\<close>

datatype 'v answer = Plain 'v | Later | Raise js_error

datatype call_result = Got nat | Threw js_error

text \<open>\<open>finallyPromise(promise, onFinally)\<close> on the runtime (lines 30-39), for the
  \<open>onFinally\<close> that deletes \<open>key\<close>.\<close>

definition finallyPromise_rt :: "nat \<Rightarrow> string \<Rightarrow> 'v runtime \<Rightarrow> nat \<times> 'v runtime" where
  "finallyPromise_rt promise key s = then_promise promise (ThenFinally key) (CatchFinally key) s"

text \<open>
  The function that \<open>wrap(fn)\<close> returns (lines 43-53), called with first argument \<open>key\<close>
  when \<open>fn\<close>, if called, answers as given. \<open>Promise.resolve\<close> of a plain value is a new
  fulfilled promise; \<open>Promise.resolve\<close> of a promise is that promise. When \<open>fn\<close> throws,
  the exception leaves the call before the cache is written.
\<close>

definition wrap :: "string \<Rightarrow> 'v answer \<Rightarrow> 'v runtime \<Rightarrow> call_result \<times> 'v runtime" where
  "wrap key ans s =
     (case cache s key of
        Some p \<Rightarrow> (Got p, s)
      | None \<Rightarrow>
          (let s1 = s\<lparr>invoked := invoked s @ [key]\<rparr>
           in case ans of
                Raise e \<Rightarrow> (Threw e, s1)
              | Plain v \<Rightarrow>
                  (case new_promise (Settled (Fulfilled (Val v))) s1 of
                     (promise, s2) \<Rightarrow>
                       (case finallyPromise_rt promise key (s2\<lparr>cache := (cache s2)(key \<mapsto> promise)\<rparr>) of
                          (d, s3) \<Rightarrow> (Got d, s3)))
              | Later \<Rightarrow>
                  (case new_promise (Pending []) s1 of
                     (promise, s2) \<Rightarrow>
                       (case finallyPromise_rt promise key (s2\<lparr>cache := (cache s2)(key \<mapsto> promise)\<rparr>) of
                          (d, s3) \<Rightarrow> (Got d, s3)))))"

text \<open>Several calls with the same key, one after the other.\<close>

fun wrap_all :: "string \<Rightarrow> 'v answer list \<Rightarrow> 'v runtime \<Rightarrow> call_result list \<times> 'v runtime" where
  "wrap_all key [] s = ([], s)"
| "wrap_all key (a # as) s =
     (case wrap key a s of
        (r, s1) \<Rightarrow> (case wrap_all key as s1 of (rs, s2) \<Rightarrow> (r # rs, s2)))"


text \<open>
  What can happen next in a run: the wrapped function is called with a key, and the
  provider, if it is called, answers as given; the provider settles the promise that the
  cache holds for a key; the first job of the queue runs.
\<close>

datatype 'v action = Call string "'v answer" | Answer string "'v outcome" | Job

fun act :: "'v action \<Rightarrow> 'v runtime \<Rightarrow> 'v runtime" where
  "act (Call key ans) s = snd (wrap key ans s)"
| "act (Answer key out) s = (case cache s key of Some p \<Rightarrow> settle p out s | None \<Rightarrow> s)"
| "act Job s = microtask s"

text \<open>A run: one step after the other.\<close>

fun acts :: "'v action list \<Rightarrow> 'v runtime \<Rightarrow> 'v runtime" where
  "acts [] s = s"
| "acts (a # as) s = acts as (act a s)"

section \<open>Notions used in the properties\<close>

subsection \<open>The invariant of the read-write lock\<close>

text \<open>
  Between calls the lock is in one of three phases. It is free: no writer has claimed it,
  no reader waits, and the counter is the number of readers. A writer is draining it: the
  writer has subtracted \<open>rwmutexMaxReaders\<close> from the counter and waits in \<open>writerWaiters\<close>
  until the \<open>readerWait\<close> readers that were there before it have released. Or a writer
  holds it (or has been woken and is about to): no reader is active. \<open>phase_claiming\<close> is
  the moment inside \<open>lock\<close> at which the base mutex has been taken and the body of the
  arrow function is about to run.
\<close>

definition woken :: "(callback \<Rightarrow> bool) \<Rightarrow> rwmutex \<Rightarrow> nat" where
  "woken P m = length (filter P (immediates m))"

definition queues_typed :: "rwmutex \<Rightarrow> bool" where
  "queues_typed m \<longleftrightarrow>
     (\<forall>c \<in> set (readerWaiters m). is_ReaderCb c) \<and>
     (\<forall>c \<in> set (writerWaiters m). is_WriterCb c) \<and>
     (\<forall>c \<in> set (waiters m). is_LockBody c)"

definition phase_free :: "rwmutex \<Rightarrow> bool" where
  "phase_free m \<longleftrightarrow>
     activeWriters m = 0 \<and> writerWaiters m = [] \<and> woken is_WriterCb m = 0 \<and>
     readerWaiters m = [] \<and> readerWait m = 0 \<and>
     readerCount m = int (activeReaders m + woken is_ReaderCb m) \<and>
     woken is_LockBody m \<le> 1 \<and> (locked m \<longleftrightarrow> woken is_LockBody m = 1)"

definition phase_draining :: "rwmutex \<Rightarrow> bool" where
  "phase_draining m \<longleftrightarrow>
     activeWriters m = 0 \<and> length (writerWaiters m) = 1 \<and> woken is_WriterCb m = 0 \<and>
     woken is_LockBody m = 0 \<and> locked m \<and>
     readerWait m = int (activeReaders m + woken is_ReaderCb m) \<and> 0 < readerWait m \<and>
     readerCount m = int (outstanding_reads m) - rwmutexMaxReaders"

definition phase_held :: "rwmutex \<Rightarrow> bool" where
  "phase_held m \<longleftrightarrow>
     activeWriters m + woken is_WriterCb m = 1 \<and> writerWaiters m = [] \<and>
     woken is_LockBody m = 0 \<and> locked m \<and>
     activeReaders m = 0 \<and> woken is_ReaderCb m = 0 \<and> readerWait m = 0 \<and>
     readerCount m = int (outstanding_reads m) - rwmutexMaxReaders"

definition phase_claiming :: "rwmutex \<Rightarrow> bool" where
  "phase_claiming m \<longleftrightarrow>
     activeWriters m = 0 \<and> writerWaiters m = [] \<and> woken is_WriterCb m = 0 \<and>
     readerWaiters m = [] \<and> readerWait m = 0 \<and>
     readerCount m = int (activeReaders m + woken is_ReaderCb m) \<and>
     woken is_LockBody m = 0 \<and> locked m"

definition lock_inv :: "rwmutex \<Rightarrow> bool" where
  "lock_inv m \<longleftrightarrow>
     queues_typed m \<and> int (outstanding_reads m) < rwmutexMaxReaders \<and>
     (phase_free m \<or> phase_draining m \<or> phase_held m)"

text \<open>
  What the counter encodes, whatever the number of readers: it is the number of
  outstanding read acquisitions, less \<open>rwmutexMaxReaders\<close> once a writer has claimed the
  lock. The base mutex is taken exactly while a writer has claimed the lock or the body
  of a \<open>lock\<close> has been handed to \<open>setImmediate\<close>, and never by two at once.
\<close>

definition lock_counts :: "rwmutex \<Rightarrow> bool" where
  "lock_counts m \<longleftrightarrow>
     queues_typed m \<and>
     claimed_writers m + woken is_LockBody m \<le> 1 \<and>
     (locked m \<longleftrightarrow> claimed_writers m + woken is_LockBody m = 1) \<and>
     readerCount m =
       int (outstanding_reads m) - (if claimed_writers m = 0 then 0 else rwmutexMaxReaders)"

subsection \<open>Notions for the properties of the loader\<close>

text \<open>The successive values of the variable \<open>p\<close> of \<open>loadEntry\<close> (line 181) when the
  walk starts with \<open>p\<close> and goes through the segments given.\<close>

fun accumulated :: "string list \<Rightarrow> string list \<Rightarrow> string list list" where
  "accumulated p [] = []"
| "accumulated p (s # rest) = join_path p s # accumulated (join_path p s) rest"

text \<open>The ancestors of a path: the root and every proper prefix of its segments, the root
  first. The root has none.\<close>

definition ancestors :: "string \<Rightarrow> string list list" where
  "ancestors path = butlast (prefixes (segments path))"

fun is_dir :: "'x inode option \<Rightarrow> bool" where
  "is_dir (Some (DirInode names loaded x)) = True"
| "is_dir other = False"

fun is_loaded_dir :: "'x inode option \<Rightarrow> bool" where
  "is_loaded_dir (Some (DirInode names loaded x)) = loaded"
| "is_loaded_dir other = False"

text \<open>An index is well formed when every path in it but the root has a directory as its
  parent: what an index is that grew from \<open>new_index\<close> by insertions.\<close>

definition wf_index :: "'x file_index \<Rightarrow> bool" where
  "wf_index idx \<longleftrightarrow> (\<forall>k. k \<noteq> [] \<and> idx k \<noteq> None \<longrightarrow> is_dir (idx (butlast k)))"

subsection \<open>An example provider\<close>

text \<open>A listing provider for the examples: the root holds a directory \<open>a\<close> and a file
  \<open>f.txt\<close>; listing \<open>/a\<close> fails; every other directory is empty.\<close>

definition example_listing :: "unit dir_provider" where
  "example_listing p x =
     (if p = [] then Resolved [(''a'', DIRECTORY, None), (''f.txt'', FILE, None)]
      else if p = [''a''] then Rejected (JsError ''unreachable'')
      else Resolved [])"

definition example_dir_stats :: stats where
  "example_dir_stats = \<lparr>itemType = DIRECTORY, fsize = 4096, mode = 365, fileData = None\<rparr>"

definition example_reader :: "unit file_provider" where
  "example_reader p x = Resolved [104, 105]"

text \<open>The state after a first call with \<open>key\<close>, which the provider answers with a promise
  it settles later, and then one further call with \<open>key\<close> for each element of
  \<open>answers\<close>.\<close>

definition after_calls :: "string \<Rightarrow> 'v answer list \<Rightarrow> 'v runtime \<Rightarrow> 'v runtime" where
  "after_calls key answers s = snd (wrap_all key answers (snd (wrap key Later s)))"

text \<open>The promises a handler, a stored reaction and a queued job can settle or read: the
  numbers written in them.\<close>

fun handler_refs :: "'v handler \<Rightarrow> nat set" where
  "handler_refs (ResolveOf d) = {d}"
| "handler_refs (RejectOf d) = {d}"
| "handler_refs h = {}"

fun reaction_refs :: "'v reaction \<Rightarrow> nat set" where
  "reaction_refs (f, g, d) = insert d (handler_refs f \<union> handler_refs g)"

fun job_refs :: "'v job \<Rightarrow> nat set" where
  "job_refs (Reaction h out d) = insert d (handler_refs h)"
| "job_refs (Adopt d r) = {d, r}"

text \<open>The reactions stored on the pending promises of \<open>A\<close> name promises of \<open>A\<close> only.\<close>

definition reactions_in :: "nat set \<Rightarrow> 'v runtime \<Rightarrow> bool" where
  "reactions_in A s \<longleftrightarrow>
     (\<forall>n rs. n \<in> A \<longrightarrow> promises s n = Pending rs \<longrightarrow> (\<forall>r \<in> set rs. reaction_refs r \<subseteq> A))"

text \<open>What running a job whose promises lie in \<open>A\<close> can do: create promises, queue jobs
  on promises of \<open>A\<close> and on the new ones, and change promises of \<open>A\<close> and the new ones;
  the provider is not called.\<close>

definition job_effect :: "nat set \<Rightarrow> 'v runtime \<Rightarrow> 'v runtime \<Rightarrow> bool" where
  "job_effect A s s' \<longleftrightarrow>
     fresh s \<le> fresh s' \<and>
     (\<exists>new. microtasks s' = microtasks s @ new \<and>
        (\<forall>j \<in> set new. job_refs j \<subseteq> A \<union> {fresh s..<fresh s'})) \<and>
     reactions_in (A \<union> {fresh s..<fresh s'}) s' \<and>
     (\<forall>n. n \<notin> A \<longrightarrow> n < fresh s \<longrightarrow> promises s' n = promises s n) \<and>
     invoked s' = invoked s"

text \<open>Queued jobs that name promises of \<open>A\<close> only.\<close>

definition foreign :: "nat set \<Rightarrow> 'v job list \<Rightarrow> bool" where
  "foreign A js \<longleftrightarrow> (\<forall>j \<in> set js. job_refs j \<subseteq> A)"


text \<open>The handler that \<open>finallyPromise\<close> chains after \<open>onFinally\<close>: it returns the value
  or throws the error again.\<close>

fun carried :: "'v outcome \<Rightarrow> 'v handler" where
  "carried (Fulfilled v) = ReturnValue v"
| "carried (RejectedWith e) = ThrowError e"

text \<open>Every promise named by a stored reaction or by a queued job has been created. This
  holds of the initial runtime and is kept by every call, settlement and job.\<close>

definition bounded :: "'v runtime \<Rightarrow> bool" where
  "bounded s \<longleftrightarrow> reactions_in {..<fresh s} s \<and> foreign {..<fresh s} (microtasks s)"

text \<open>What holds of every runtime reached from the initial one: it is bounded, and the
  promises that the cache holds have been created.\<close>

definition sound :: "'v runtime \<Rightarrow> bool" where
  "sound s \<longleftrightarrow> bounded s \<and> (\<forall>k p. cache s k = Some p \<longrightarrow> p < fresh s)"

text \<open>The job names a promise of \<open>U\<close>.\<close>

definition touches :: "nat set \<Rightarrow> 'v job \<Rightarrow> bool" where
  "touches U j \<longleftrightarrow> job_refs j \<inter> U \<noteq> {}"

text \<open>The promises of \<open>U\<close> are out of reach of everything else: the promises outside
  \<open>U\<close> are closed under their reactions, the queued jobs that name a promise of \<open>U\<close> are
  exactly \<open>ours\<close>, in this order, and the cache holds no promise of \<open>U\<close> but \<open>p\<close>.\<close>

definition sealed :: "nat \<Rightarrow> nat set \<Rightarrow> 'v job list \<Rightarrow> 'v runtime \<Rightarrow> bool" where
  "sealed p U ours s \<longleftrightarrow>
     U \<subseteq> {..<fresh s} \<and>
     reactions_in ({..<fresh s} - U) s \<and>
     foreign {..<fresh s} (microtasks s) \<and>
     filter (touches U) (microtasks s) = ours \<and>
     (\<forall>k q. cache s k = Some q \<longrightarrow> q < fresh s \<and> (q \<in> U \<longrightarrow> q = p))"

text \<open>How far a call that found no entry has come, from the provider's promise \<open>p\<close> to the
  promise \<open>d\<close> that \<open>finallyPromise\<close> returned to the caller: \<open>p\<close> is pending; \<open>p\<close> has
  settled and the job of the finally reaction is queued; that job has run, and the promise
  \<open>r\<close> of \<open>Promise.resolve(onFinally()).then(...)\<close> is pending, its job and the job by
  which \<open>d\<close> adopts \<open>r\<close> queued; \<open>r\<close> has settled; \<open>r.then\<close> has been called with the
  resolving functions of \<open>d\<close>, giving \<open>d'\<close>, and its job is queued; \<open>d\<close> has settled.\<close>

datatype 'v phase =
    Waiting
  | Answered "'v outcome"
  | Finalised "'v outcome" nat
  | Carried "'v outcome" nat
  | Adopting "'v outcome" nat nat
  | Done "'v outcome"

text \<open>The promises of the call in each phase.\<close>

fun members :: "nat \<Rightarrow> nat \<Rightarrow> 'v phase \<Rightarrow> nat set" where
  "members p d (Finalised out r) = {p, d, r}"
| "members p d (Carried out r) = {p, d, r}"
| "members p d (Adopting out r d') = {p, d, r, d'}"
| "members p d ph = {p, d}"

text \<open>The queued jobs of the call in each phase.\<close>

fun own_jobs :: "string \<Rightarrow> nat \<Rightarrow> 'v phase \<Rightarrow> 'v job list" where
  "own_jobs key d Waiting = []"
| "own_jobs key d (Answered out) = [job_for out (ThenFinally key, CatchFinally key, d)]"
| "own_jobs key d (Finalised out r) = [Reaction (carried out) (Fulfilled Undefined) r, Adopt d r]"
| "own_jobs key d (Carried out r) = [Adopt d r]"
| "own_jobs key d (Adopting out r d') = [job_for out (ResolveOf d, RejectOf d, d')]"
| "own_jobs key d (Done out) = []"

text \<open>The states of the promises of the call in each phase.\<close>

fun shape :: "string \<Rightarrow> nat \<Rightarrow> nat \<Rightarrow> 'v phase \<Rightarrow> 'v runtime \<Rightarrow> bool" where
  "shape key p d Waiting s \<longleftrightarrow>
     p \<noteq> d \<and> promises s p = Pending [(ThenFinally key, CatchFinally key, d)] \<and>
     promises s d = Pending []"
| "shape key p d (Answered out) s \<longleftrightarrow>
     p \<noteq> d \<and> promises s p = Settled out \<and> promises s d = Pending []"
| "shape key p d (Finalised out r) s \<longleftrightarrow>
     distinct [p, d, r] \<and> promises s p = Settled out \<and> promises s d = Pending [] \<and>
     promises s r = Pending []"
| "shape key p d (Carried out r) s \<longleftrightarrow>
     distinct [p, d, r] \<and> promises s p = Settled out \<and> promises s d = Pending [] \<and>
     promises s r = Settled out"
| "shape key p d (Adopting out r d') s \<longleftrightarrow>
     distinct [p, d, r, d'] \<and> promises s p = Settled out \<and> promises s d = Pending [] \<and>
     promises s r = Settled out \<and> promises s d' = Pending []"
| "shape key p d (Done out) s \<longleftrightarrow>
     promises s p = Settled out \<and> promises s d = Settled out"

text \<open>The call with provider's promise \<open>p\<close> and caller's promise \<open>d\<close> is in phase \<open>ph\<close>.\<close>

definition chain :: "string \<Rightarrow> nat \<Rightarrow> nat \<Rightarrow> 'v phase \<Rightarrow> 'v runtime \<Rightarrow> bool" where
  "chain key p d ph s \<longleftrightarrow>
     shape key p d ph s \<and>
     (case ph of
        Done out \<Rightarrow> p < fresh s \<and> d < fresh s
      | _ \<Rightarrow> sealed p (members p d ph) (own_jobs key d ph) s)"

text \<open>The outcome of the provider's promise, once there is one.\<close>

fun result :: "'v phase \<Rightarrow> 'v outcome option" where
  "result Waiting = None"
| "result (Answered out) = Some out"
| "result (Finalised out r) = Some out"
| "result (Carried out r) = Some out"
| "result (Adopting out r d') = Some out"
| "result (Done out) = Some out"

text \<open>The number of jobs of the call that have yet to run, and one more while the provider
  has not answered.\<close>

fun rank :: "'v phase \<Rightarrow> nat" where
  "rank Waiting = 5"
| "rank (Answered out) = 4"
| "rank (Finalised out r) = 3"
| "rank (Carried out r) = 2"
| "rank (Adopting out r d') = 1"
| "rank (Done out) = 0"





section \<open>Properties of the read-write lock\<close>

subsection \<open>Every permitted call keeps the invariant\<close>

text \<open>The new lock is free. Each call is taken phase by phase: the guards decide which
  branch of the code runs, and the state it leaves is in a phase again.\<close>

lemmas phase_defs = phase_free_def phase_claiming_def phase_draining_def phase_held_def woken_def
  outstanding_reads_def queues_typed_def

lemma wake_readers_all:
  "readerWaiters m = xs \<Longrightarrow>
   wake_readers (length xs) m = m\<lparr>readerWaiters := [], immediates := immediates m @ xs\<rparr>"
  by (induction xs arbitrary: m) auto

lemma filter_readers:
  assumes "\<forall>c \<in> set xs. is_ReaderCb c"
  shows "filter is_ReaderCb xs = xs" "filter is_WriterCb xs = []" "filter is_LockBody xs = []"
  using assms by (induction xs) (auto simp: callback.disc_eq_case split: callback.splits)

lemma inv_new: "lock_inv new_rwmutex"
  by (simp add: lock_inv_def new_rwmutex_def phase_defs rwmutexMaxReaders_def)

lemma inv_rLock:
  assumes "lock_inv m" "within_capacity (RLock c) m"
  shows "lock_inv (rLock c m)"
proof -
  from assms have typed: "queues_typed m" and cap: "int (outstanding_reads m) + 1 < rwmutexMaxReaders"
    by (simp_all add: lock_inv_def)
  from assms(1) consider (free) "phase_free m" | (draining) "phase_draining m" | (held) "phase_held m"
    by (auto simp: lock_inv_def)
  then show ?thesis
  proof cases
    case free
    then have "phase_free (rLock c m)"
      by (simp add: rLock_def Let_def phase_defs)
    moreover from free typed cap have "queues_typed (rLock c m)" "int (outstanding_reads (rLock c m)) < rwmutexMaxReaders"
      by (simp_all add: rLock_def Let_def phase_defs)
    ultimately show ?thesis by (simp add: lock_inv_def)
  next
    case draining
    with cap have neg: "readerCount m + 1 < 0" by (simp add: phase_defs del: length_0_conv)
    with draining have "phase_draining (rLock c m)"
      by (simp add: rLock_def Let_def phase_defs)
    moreover from neg typed cap have "queues_typed (rLock c m)" "int (outstanding_reads (rLock c m)) < rwmutexMaxReaders"
      by (simp_all add: rLock_def Let_def phase_defs)
    ultimately show ?thesis by (simp add: lock_inv_def)
  next
    case held
    with cap have neg: "readerCount m + 1 < 0" by (simp add: phase_defs del: length_0_conv)
    with held have "phase_held (rLock c m)"
      by (simp add: rLock_def Let_def phase_defs)
    moreover from neg typed cap have "queues_typed (rLock c m)" "int (outstanding_reads (rLock c m)) < rwmutexMaxReaders"
      by (simp_all add: rLock_def Let_def phase_defs)
    ultimately show ?thesis by (simp add: lock_inv_def)
  qed
qed


lemma inv_rUnlock:
  assumes "lock_inv m" "0 < activeReaders m"
  shows "\<exists>m'. rUnlock m = Inr m' \<and> lock_inv (m'\<lparr>activeReaders := activeReaders m' - 1\<rparr>)"
proof -
  from assms have typed: "queues_typed m" and cap: "int (outstanding_reads m) < rwmutexMaxReaders"
    by (simp_all add: lock_inv_def)
  from assms consider (free) "phase_free m" | (draining) "phase_draining m"
    by (auto simp: lock_inv_def phase_held_def)
  then show ?thesis
  proof cases
    case free
    with assms(2) have pos: "0 < readerCount m" "readerCount m \<noteq> - rwmutexMaxReaders"
      by (simp_all add: phase_defs rwmutexMaxReaders_def)
    then have eq: "rUnlock m = Inr (m\<lparr>readerCount := readerCount m - 1\<rparr>)"
      by (simp add: rUnlock_def Let_def)
    from free assms(2) have "phase_free (m\<lparr>readerCount := readerCount m - 1, activeReaders := activeReaders m - 1\<rparr>)"
      by (simp add: phase_defs del: length_0_conv)
    moreover from typed cap have "queues_typed (m\<lparr>readerCount := readerCount m - 1, activeReaders := activeReaders m - 1\<rparr>)"
      "int (outstanding_reads (m\<lparr>readerCount := readerCount m - 1, activeReaders := activeReaders m - 1\<rparr>)) < rwmutexMaxReaders"
      by (simp_all add: phase_defs del: length_0_conv)
    ultimately show ?thesis using eq by (simp add: lock_inv_def)
  next
    case draining
    then obtain w where wq: "writerWaiters m = [w]"
      by (cases "writerWaiters m") (auto simp: phase_defs)
    from draining assms(2) cap have rc: "readerCount m \<noteq> 0" "readerCount m \<noteq> - rwmutexMaxReaders" "readerCount m - 1 < 0"
      by (simp_all add: phase_defs del: length_0_conv)
    show ?thesis
    proof (cases "readerWait m = 1")
      case True
      with rc wq have eq: "rUnlock m = Inr (m\<lparr>readerCount := readerCount m - 1, readerWait := 0,
          writerWaiters := [], immediates := immediates m @ [w]\<rparr>)"
        by (simp add: rUnlock_def Let_def)
      from typed wq have w: "is_WriterCb w" by (simp add: queues_typed_def)
      then have nw: "\<not> is_ReaderCb w" "\<not> is_LockBody w" by (cases w; simp)+
      from draining True assms(2) w nw have "phase_held (m\<lparr>readerCount := readerCount m - 1, readerWait := 0,
          writerWaiters := [], immediates := immediates m @ [w], activeReaders := activeReaders m - 1\<rparr>)"
        by (simp add: phase_defs del: length_0_conv)
      moreover from typed cap nw have "queues_typed (m\<lparr>readerCount := readerCount m - 1, readerWait := 0,
          writerWaiters := [], immediates := immediates m @ [w], activeReaders := activeReaders m - 1\<rparr>)"
        "int (outstanding_reads (m\<lparr>readerCount := readerCount m - 1, readerWait := 0,
          writerWaiters := [], immediates := immediates m @ [w], activeReaders := activeReaders m - 1\<rparr>)) < rwmutexMaxReaders"
        by (simp_all add: phase_defs del: length_0_conv)
      ultimately show ?thesis using eq by (simp add: lock_inv_def)
    next
      case False
      with rc have eq: "rUnlock m = Inr (m\<lparr>readerCount := readerCount m - 1, readerWait := readerWait m - 1\<rparr>)"
        by (simp add: rUnlock_def Let_def)
      from draining False assms(2) have "phase_draining (m\<lparr>readerCount := readerCount m - 1,
          readerWait := readerWait m - 1, activeReaders := activeReaders m - 1\<rparr>)"
        by (simp add: phase_defs del: length_0_conv)
      moreover from typed cap have "queues_typed (m\<lparr>readerCount := readerCount m - 1,
          readerWait := readerWait m - 1, activeReaders := activeReaders m - 1\<rparr>)"
        "int (outstanding_reads (m\<lparr>readerCount := readerCount m - 1,
          readerWait := readerWait m - 1, activeReaders := activeReaders m - 1\<rparr>)) < rwmutexMaxReaders"
        by (simp_all add: phase_defs del: length_0_conv)
      ultimately show ?thesis using eq by (simp add: lock_inv_def)
    qed
  qed
qed

lemma inv_lock_body:
  assumes "queues_typed m" "int (outstanding_reads m) < rwmutexMaxReaders"
    "phase_claiming m"
  shows "lock_inv (lock_body c m)"
proof (cases "readerCount m = 0")
  case True
  with assms(3) have eq: "lock_body c m = m\<lparr>readerWait := 0, readerCount := - rwmutexMaxReaders,
      activeWriters := 1\<rparr>"
    by (simp add: lock_body_def Let_def phase_defs)
  from assms True have "phase_held (lock_body c m)"
    unfolding eq by (simp add: phase_defs del: length_0_conv)
  moreover from assms have "queues_typed (lock_body c m)" "int (outstanding_reads (lock_body c m)) < rwmutexMaxReaders"
    unfolding eq by (simp_all add: phase_defs del: length_0_conv)
  ultimately show ?thesis by (simp add: lock_inv_def)
next
  case False
  with assms(3) have eq: "lock_body c m = m\<lparr>readerWait := readerCount m,
      readerCount := readerCount m - rwmutexMaxReaders, writerWaiters := [WriterCb c]\<rparr>"
    by (simp add: lock_body_def Let_def phase_defs)
  from assms False have "phase_draining (lock_body c m)"
    unfolding eq by (simp add: phase_defs del: length_0_conv)
  moreover from assms have "queues_typed (lock_body c m)" "int (outstanding_reads (lock_body c m)) < rwmutexMaxReaders"
    unfolding eq by (simp_all add: phase_defs del: length_0_conv)
  ultimately show ?thesis by (simp add: lock_inv_def)
qed

lemma inv_lock:
  assumes "lock_inv m"
  shows "lock_inv (lock c m)"
proof (cases "locked m")
  case True
  then have eq: "lock c m = m\<lparr>waiters := waiters m @ [LockBody c]\<rparr>"
    by (simp add: lock_def mutex_lock_def)
  from assms show ?thesis
    unfolding eq by (simp add: lock_inv_def phase_defs del: length_0_conv)
next
  case False
  then have eq: "lock c m = lock_body c (m\<lparr>locked := True\<rparr>)"
    by (simp add: lock_def mutex_lock_def)
  from assms False have free: "phase_free m"
    by (auto simp: lock_inv_def phase_defs simp del: length_0_conv)
  with False have "phase_claiming (m\<lparr>locked := True\<rparr>)"
    by (simp add: phase_defs del: length_0_conv)
  moreover from assms have "queues_typed (m\<lparr>locked := True\<rparr>)"
    "int (outstanding_reads (m\<lparr>locked := True\<rparr>)) < rwmutexMaxReaders"
    by (simp_all add: lock_inv_def phase_defs del: length_0_conv)
  ultimately show ?thesis
    unfolding eq by (intro inv_lock_body)
qed

lemma inv_unlock:
  assumes "lock_inv m" "0 < activeWriters m"
  shows "\<exists>m'. unlock m = Inr m' \<and> lock_inv (m'\<lparr>activeWriters := activeWriters m' - 1\<rparr>)"
proof -
  from assms have typed: "queues_typed m" and cap: "int (outstanding_reads m) < rwmutexMaxReaders"
    by (simp_all add: lock_inv_def)
  from assms have held: "phase_held m"
    by (auto simp: lock_inv_def phase_free_def phase_draining_def)
  with cap have neg: "\<not> 0 \<le> readerCount m" by (simp add: phase_defs del: length_0_conv)
  define m2 where "m2 = m\<lparr>readerCount := readerCount m + rwmutexMaxReaders, readerWaiters := [],
     immediates := immediates m @ readerWaiters m\<rparr>"
  from neg have eq: "unlock m = mutex_unlock m2"
    by (simp add: unlock_def Let_def wake_readers_all m2_def)
  from typed have rq: "\<forall>c \<in> set (readerWaiters m). is_ReaderCb c"
    by (simp add: queues_typed_def)
  note fr = filter_readers[OF rq]
  from held have lk: "locked m2" by (simp add: m2_def phase_defs del: length_0_conv)
  show ?thesis
  proof (cases "waiters m")
    case Nil
    with lk have eq2: "unlock m = Inr (m2\<lparr>locked := False\<rparr>)"
      by (simp add: eq mutex_unlock_def m2_def)
    from held assms(2) fr have "phase_free (m2\<lparr>locked := False, activeWriters := activeWriters m - 1\<rparr>)"
      by (simp add: m2_def phase_defs del: length_0_conv)
    moreover from typed cap held fr have "queues_typed (m2\<lparr>locked := False, activeWriters := activeWriters m - 1\<rparr>)"
      "int (outstanding_reads (m2\<lparr>locked := False, activeWriters := activeWriters m - 1\<rparr>)) < rwmutexMaxReaders"
      by (simp_all add: m2_def phase_defs del: length_0_conv)
    ultimately show ?thesis using eq2 by (simp add: lock_inv_def m2_def)
  next
    case (Cons b rest)
    with lk have eq2: "unlock m = Inr (m2\<lparr>waiters := rest, immediates := immediates m2 @ [b]\<rparr>)"
      by (simp add: eq mutex_unlock_def m2_def)
    from typed Cons have b: "is_LockBody b" by (simp add: queues_typed_def)
    then have nb: "\<not> is_ReaderCb b" "\<not> is_WriterCb b" by (cases b; simp)+
    from held assms(2) fr b nb have "phase_free (m2\<lparr>waiters := rest, immediates := immediates m2 @ [b],
        activeWriters := activeWriters m - 1\<rparr>)"
      by (simp add: m2_def phase_defs del: length_0_conv)
    moreover from typed cap held fr b nb Cons have "queues_typed (m2\<lparr>waiters := rest, immediates := immediates m2 @ [b],
        activeWriters := activeWriters m - 1\<rparr>)"
      "int (outstanding_reads (m2\<lparr>waiters := rest, immediates := immediates m2 @ [b],
        activeWriters := activeWriters m - 1\<rparr>)) < rwmutexMaxReaders"
      by (simp_all add: m2_def phase_defs del: length_0_conv)
    ultimately show ?thesis using eq2 by (simp add: lock_inv_def m2_def)
  qed
qed

lemma inv_tick:
  assumes "lock_inv m"
  shows "lock_inv (tick m)"
proof (cases "immediates m")
  case Nil
  with assms show ?thesis by (simp add: tick_def)
next
  case (Cons cb rest)
  from assms have typed: "queues_typed m" and cap: "int (outstanding_reads m) < rwmutexMaxReaders"
    by (simp_all add: lock_inv_def)
  show ?thesis
  proof (cases cb)
    case (ReaderCb c)
    with Cons have eq: "tick m = m\<lparr>immediates := rest, activeReaders := activeReaders m + 1\<rparr>"
      by (simp add: tick_def)
    from assms Cons ReaderCb typed cap show ?thesis
      unfolding eq by (auto simp: lock_inv_def phase_defs simp del: length_0_conv)
  next
    case (WriterCb c)
    with Cons have eq: "tick m = m\<lparr>immediates := rest, activeWriters := activeWriters m + 1\<rparr>"
      by (simp add: tick_def)
    from assms Cons WriterCb typed cap show ?thesis
      unfolding eq by (auto simp: lock_inv_def phase_defs simp del: length_0_conv)
  next
    case (LockBody c)
    with Cons have eq: "tick m = lock_body c (m\<lparr>immediates := rest\<rparr>)"
      by (simp add: tick_def)
    from assms Cons LockBody have free: "phase_free m"
      by (auto simp: lock_inv_def phase_defs simp del: length_0_conv)
    with Cons LockBody have "phase_claiming (m\<lparr>immediates := rest\<rparr>)"
      by (simp add: phase_defs del: length_0_conv)
    moreover from typed cap Cons LockBody have "queues_typed (m\<lparr>immediates := rest\<rparr>)"
      "int (outstanding_reads (m\<lparr>immediates := rest\<rparr>)) < rwmutexMaxReaders"
      by (simp_all add: phase_defs del: length_0_conv)
    ultimately show ?thesis
      unfolding eq by (intro inv_lock_body)
  qed
qed

text \<open>So no permitted call raises, and a run of permitted calls stays within the
  invariant, which gives the exclusion.\<close>

lemma inv_step:
  assumes "lock_inv m" "permitted e m"
  shows "\<exists>m'. step e m = Inr m' \<and> lock_inv m'"
proof (cases e)
  case (RLock c)
  with assms show ?thesis by (simp add: permitted_def inv_rLock)
next
  case RUnlock
  with assms have "0 < activeReaders m" by (simp add: permitted_def)
  from inv_rUnlock[OF assms(1) this] RUnlock show ?thesis by auto
next
  case (Lock c)
  with assms show ?thesis by (simp add: inv_lock)
next
  case Unlock
  with assms have "0 < activeWriters m" by (simp add: permitted_def)
  from inv_unlock[OF assms(1) this] Unlock show ?thesis by auto
next
  case Tick
  with assms show ?thesis by (simp add: inv_tick)
qed

lemma inv_exec:
  "lock_inv m \<Longrightarrow> exec permitted es m = Some m' \<Longrightarrow> lock_inv m'"
proof (induction es arbitrary: m)
  case Nil
  then show ?case by simp
next
  case (Cons e es)
  from Cons.prems(2) have ok: "permitted e m" by (simp split: if_splits)
  from inv_step[OF Cons.prems(1) ok] obtain m1 where m1: "step e m = Inr m1" "lock_inv m1" by blast
  with Cons.prems(2) ok have "exec permitted es m1 = Some m'" by simp
  with Cons.IH m1 show ?case by blast
qed

lemma inv_exclusion: "lock_inv m \<Longrightarrow> mutual_exclusion m"
  by (auto simp: lock_inv_def mutual_exclusion_def phase_defs simp del: length_0_conv)

text \<open>
  Claim C1, with the capacity of the counter made explicit. For every balanced sequence
  of \<open>rLock\<close>, \<open>rUnlock\<close>, \<open>lock\<close> and \<open>unlock\<close> calls and ticks of the event loop in which
  fewer than \<open>rwmutexMaxReaders\<close> read acquisitions are outstanding at any time, the state
  reached has at most one writer holding the lock, and no reader holding it while a
  writer does. Every prefix of such a sequence is such a sequence, so this holds in every
  state on the way; and no call of such a sequence raises (\<open>inv_step\<close>), so \<open>exec\<close> is
  \<open>None\<close> only for a sequence that is not of this kind.
\<close>

theorem rwmutex_mutual_exclusion:
  assumes "exec permitted es new_rwmutex = Some m"
  shows "mutual_exclusion m"
  using inv_exec[OF inv_new assms] by (rule inv_exclusion)

subsection \<open>Beyond the capacity of the counter\<close>

text \<open>While a writer holds the lock, \<open>n\<close> calls of \<open>rLock\<close> that leave the counter negative
  queue \<open>n\<close> readers.\<close>

lemma exec_append:
  "exec ok (xs @ ys) m = (case exec ok xs m of None \<Rightarrow> None | Some m' \<Rightarrow> exec ok ys m')"
  by (induction xs arbitrary: m) (auto split: sum.splits)

lemma rLocks_queued:
  "readerCount m + int n < 0 \<Longrightarrow>
   exec balanced (replicate n (RLock c)) m =
     Some (m\<lparr>readerCount := readerCount m + int n,
             readerWaiters := readerWaiters m @ replicate n (ReaderCb c)\<rparr>)"
proof (induction n arbitrary: m)
  case 0
  then show ?case by simp
next
  case (Suc n)
  then have neg: "readerCount m + 1 < 0" by simp
  define m1 where "m1 = m\<lparr>readerCount := readerCount m + 1, readerWaiters := readerWaiters m @ [ReaderCb c]\<rparr>"
  from neg have st: "rLock c m = m1" by (simp add: rLock_def Let_def m1_def)
  from Suc.prems have "readerCount m1 + int n < 0" by (simp add: m1_def)
  from Suc.IH[OF this] st show ?case
    by (simp add: m1_def replicate_app_Cons_same)
qed

lemmas lock_eval = rLock_def rUnlock_def lock_def unlock_def mutex_lock_def mutex_unlock_def
  tick_def lock_body_def Let_def new_rwmutex_def permitted_def outstanding_reads_def
  claimed_writers_def rwmutexMaxReaders_def wake_readers_all

text \<open>
  The example of the spec: two readers enter at once, a writer asks and has to wait, both
  readers release, and on the next tick the writer holds the lock alone.
\<close>

theorem rwmutex_mutual_exclusion_witness:
  "exec permitted [RLock 1, RLock 2, Lock 3, RUnlock, RUnlock, Tick] new_rwmutex =
     Some \<lparr>locked = True, waiters = [], readerWaiters = [], writerWaiters = [],
       readerCount = - 1073741824, readerWait = 0, immediates = [],
       activeReaders = 0, activeWriters = 1\<rparr> \<and>
   mutual_exclusion \<lparr>locked = True, waiters = [], readerWaiters = [], writerWaiters = [],
       readerCount = - 1073741824, readerWait = 0, immediates = [],
       activeReaders = 0, activeWriters = 1\<rparr>"
proof -
  have run: "exec permitted [RLock 1, RLock 2, Lock 3, RUnlock, RUnlock, Tick] new_rwmutex =
     Some \<lparr>locked = True, waiters = [], readerWaiters = [], writerWaiters = [],
       readerCount = - 1073741824, readerWait = 0, immediates = [],
       activeReaders = 0, activeWriters = 1\<rparr>"
    by (simp add: lock_eval)
  from run rwmutex_mutual_exclusion[OF run] show ?thesis by simp
qed

lemma writer_then_readers:
  assumes "int n + 1 = rwmutexMaxReaders"
  shows "exec balanced (Lock w # replicate n (RLock c) @ [RLock c]) new_rwmutex =
    Some \<lparr>locked = True, waiters = [], readerWaiters = replicate n (ReaderCb c), writerWaiters = [],
       readerCount = 0, readerWait = 0, immediates = [],
       activeReaders = 1, activeWriters = 1\<rparr>"
proof -
  define m0 where "m0 = \<lparr>locked = True, waiters = [], readerWaiters = [], writerWaiters = [],
       readerCount = - rwmutexMaxReaders, readerWait = 0, immediates = [],
       activeReaders = 0, activeWriters = 1\<rparr>"
  have a: "step (Lock w) new_rwmutex = Inr m0"
    by (simp add: m0_def lock_def mutex_lock_def lock_body_def Let_def new_rwmutex_def)
  from assms have "readerCount m0 + int n < 0" by (simp add: m0_def)
  from rLocks_queued[OF this, of c]
  have b: "exec balanced (replicate n (RLock c)) m0 =
     Some (m0\<lparr>readerCount := -1, readerWaiters := replicate n (ReaderCb c)\<rparr>)"
    using assms by (simp add: m0_def)
  have c: "step (RLock c) (m0\<lparr>readerCount := -1, readerWaiters := replicate n (ReaderCb c)\<rparr>) =
     Inr \<lparr>locked = True, waiters = [], readerWaiters = replicate n (ReaderCb c), writerWaiters = [],
       readerCount = 0, readerWait = 0, immediates = [],
       activeReaders = 1, activeWriters = 1\<rparr>"
    by (simp add: m0_def rLock_def Let_def)
  from a b c show ?thesis by (simp add: exec_append)
qed

text \<open>
  Claim C1 as it is stated, for every balanced sequence, does not hold. A writer takes
  the free lock, which sets the counter to \<open>- 2 ^ 30\<close>; each \<open>rLock\<close> adds one, and the
  first \<open>2 ^ 30 - 1\<close> readers are queued; the \<open>2 ^ 30\<close>-th \<open>rLock\<close> finds the counter at \<open>0\<close>,
  not negative, and calls its reader while the writer still holds the lock.
\<close>

theorem rwmutex_reader_overflow:
  "map_option mutual_exclusion
     (exec balanced (Lock 0 # replicate (2 ^ 30) (RLock 1)) new_rwmutex) = Some False"
proof -
  have n: "(2::nat) ^ 30 = Suc 1073741823" by simp
  have "replicate (2 ^ 30) (RLock 1) = replicate 1073741823 (RLock 1) @ [RLock 1]"
    unfolding n by (simp only: replicate_Suc replicate_append_same)
  moreover have "int 1073741823 + 1 = rwmutexMaxReaders"
    by (simp add: rwmutexMaxReaders_def)
  ultimately show ?thesis
    by (simp only: writer_then_readers option.map mutual_exclusion_def rwmutex.simps) simp
qed

subsection \<open>What the guards of the releases detect\<close>

text \<open>\<open>lock_counts\<close> holds in the new lock and is kept by every balanced call that returns,
  whatever the number of readers.\<close>

lemmas count_defs = lock_counts_def queues_typed_def claimed_writers_def outstanding_reads_def
  woken_def

lemma counts_new: "lock_counts new_rwmutex"
  by (simp add: count_defs new_rwmutex_def)

lemma counts_rLock:
  assumes "lock_counts m"
  shows "lock_counts (rLock c m)"
  using assms by (simp add: rLock_def Let_def count_defs del: length_0_conv)

lemma counts_lock_body:
  assumes "queues_typed m" "claimed_writers m = 0" "woken is_LockBody m = 0" "locked m"
    "readerCount m = int (outstanding_reads m)"
  shows "lock_counts (lock_body c m)"
  using assms by (simp add: lock_body_def Let_def count_defs del: length_0_conv)

lemma counts_lock:
  assumes "lock_counts m"
  shows "lock_counts (lock c m)"
proof (cases "locked m")
  case True
  with assms show ?thesis
    by (simp add: lock_def mutex_lock_def count_defs del: length_0_conv)
next
  case False
  then have eq: "lock c m = lock_body c (m\<lparr>locked := True\<rparr>)"
    by (simp add: lock_def mutex_lock_def)
  from assms False show ?thesis
    unfolding eq by (intro counts_lock_body) (auto simp: count_defs simp del: length_0_conv)
qed

lemma counts_tick:
  assumes "lock_counts m"
  shows "lock_counts (tick m)"
proof (cases "immediates m")
  case Nil
  with assms show ?thesis by (simp add: tick_def)
next
  case (Cons cb rest)
  show ?thesis
  proof (cases cb)
    case (ReaderCb c)
    with Cons assms show ?thesis
      by (simp add: tick_def count_defs del: length_0_conv)
  next
    case (WriterCb c)
    with Cons assms show ?thesis
      by (simp add: tick_def count_defs del: length_0_conv)
  next
    case (LockBody c)
    with Cons have eq: "tick m = lock_body c (m\<lparr>immediates := rest\<rparr>)"
      by (simp add: tick_def)
    from assms Cons LockBody show ?thesis
      unfolding eq by (intro counts_lock_body) (auto simp: count_defs simp del: length_0_conv)
  qed
qed

lemma counts_rUnlock:
  assumes "lock_counts m" "0 < activeReaders m" "rUnlock m = Inr m'"
  shows "lock_counts (m'\<lparr>activeReaders := activeReaders m' - 1\<rparr>)"
proof -
  from assms(3) have ok: "readerCount m \<noteq> 0" "readerCount m \<noteq> - rwmutexMaxReaders"
    by (auto simp: rUnlock_def split: if_splits)
  define m1 where "m1 = m\<lparr>readerCount := readerCount m - 1\<rparr>"
  define m2 where "m2 = m1\<lparr>readerWait := readerWait m1 - 1\<rparr>"
  from assms(1,2) have b1: "lock_counts (m1\<lparr>activeReaders := activeReaders m1 - 1\<rparr>)"
    by (simp add: m1_def count_defs del: length_0_conv)
  from assms(1,2) have b2: "lock_counts (m2\<lparr>activeReaders := activeReaders m2 - 1\<rparr>)"
    by (simp add: m1_def m2_def count_defs del: length_0_conv)
  show ?thesis
  proof (cases "readerCount m1 < 0")
    case False
    with ok assms(3) have "m' = m1"
      by (simp add: rUnlock_def Let_def m1_def)
    with b1 show ?thesis by simp
  next
    case neg: True
    show ?thesis
    proof (cases "readerWait m2 = 0")
      case False
      with neg ok assms(3) have "m' = m2"
        by (simp add: rUnlock_def Let_def m1_def m2_def)
      with b2 show ?thesis by simp
    next
      case zero: True
      show ?thesis
      proof (cases "writerWaiters m")
        case Nil
        with neg zero ok assms(3) have "m' = m2"
          by (simp add: rUnlock_def Let_def m1_def m2_def)
        with b2 show ?thesis by simp
      next
        case (Cons w rest)
        with neg zero ok assms(3)
        have m': "m' = m2\<lparr>writerWaiters := rest, immediates := immediates m2 @ [w]\<rparr>"
          by (simp add: rUnlock_def Let_def m1_def m2_def)
        from assms(1) Cons have w: "is_WriterCb w" by (simp add: count_defs)
        then have nw: "\<not> is_ReaderCb w" "\<not> is_LockBody w" by (cases w; simp)+
        from assms(1,2) Cons w nw show ?thesis
          unfolding m' by (simp add: m1_def m2_def count_defs del: length_0_conv)
      qed
    qed
  qed
qed

lemma counts_unlock:
  assumes "lock_counts m" "0 < activeWriters m" "unlock m = Inr m'"
  shows "lock_counts (m'\<lparr>activeWriters := activeWriters m' - 1\<rparr>)"
proof -
  from assms(3) have neg: "\<not> 0 \<le> readerCount m"
    by (auto simp: unlock_def split: if_splits)
  define m2 where "m2 = m\<lparr>readerCount := readerCount m + rwmutexMaxReaders, readerWaiters := [],
     immediates := immediates m @ readerWaiters m\<rparr>"
  from neg have eq: "unlock m = mutex_unlock m2"
    by (simp add: unlock_def Let_def wake_readers_all m2_def)
  from assms(1) have rq: "\<forall>c \<in> set (readerWaiters m). is_ReaderCb c"
    by (simp add: count_defs)
  note fr = filter_readers[OF rq]
  from assms(1) have le: "activeWriters m + length (writerWaiters m) +
      length (filter is_WriterCb (immediates m)) + length (filter is_LockBody (immediates m)) \<le> 1"
    by (simp add: count_defs del: length_0_conv)
  with assms(2) have one: "activeWriters m = 1" "length (writerWaiters m) = 0"
    "length (filter is_WriterCb (immediates m)) = 0" "length (filter is_LockBody (immediates m)) = 0"
    by linarith+
  with assms(1) have lk: "locked m" by (simp add: count_defs del: length_0_conv)
  from one have wq: "writerWaiters m = []" by simp
  show ?thesis
  proof (cases "waiters m")
    case Nil
    with lk eq assms(3) have m': "m' = m2\<lparr>locked := False\<rparr>"
      by (simp add: mutex_unlock_def m2_def)
    from assms(1) one wq fr show ?thesis
      unfolding m' by (simp add: m2_def count_defs del: length_0_conv)
  next
    case (Cons b rest)
    with lk eq assms(3) have m': "m' = m2\<lparr>waiters := rest, immediates := immediates m2 @ [b]\<rparr>"
      by (simp add: mutex_unlock_def m2_def)
    from assms(1) Cons have b: "is_LockBody b" by (simp add: count_defs)
    then have nb: "\<not> is_ReaderCb b" "\<not> is_WriterCb b" by (cases b; simp)+
    from assms(1) one wq fr b nb Cons show ?thesis
      unfolding m' by (simp add: m2_def count_defs del: length_0_conv)
  qed
qed

lemma counts_exec:
  "lock_counts m \<Longrightarrow> exec balanced es m = Some m' \<Longrightarrow> lock_counts m'"
proof (induction es arbitrary: m)
  case Nil
  then show ?case by simp
next
  case (Cons e es)
  from Cons.prems(2) obtain m1 where st: "balanced e m" "step e m = Inr m1"
    "exec balanced es m1 = Some m'"
    by (auto split: if_splits sum.splits)
  have "lock_counts m1"
  proof (cases e)
    case (RLock c)
    with st Cons.prems(1) show ?thesis by (auto simp: counts_rLock)
  next
    case RUnlock
    with st obtain m0 where "rUnlock m = Inr m0" "m1 = m0\<lparr>activeReaders := activeReaders m0 - 1\<rparr>"
      by (cases "rUnlock m") auto
    with st RUnlock counts_rUnlock[OF Cons.prems(1), of m0] show ?thesis by simp
  next
    case (Lock c)
    with st Cons.prems(1) show ?thesis by (auto simp: counts_lock)
  next
    case Unlock
    with st obtain m0 where "unlock m = Inr m0" "m1 = m0\<lparr>activeWriters := activeWriters m0 - 1\<rparr>"
      by (cases "unlock m") auto
    with st Unlock counts_unlock[OF Cons.prems(1), of m0] show ?thesis by simp
  next
    case Tick
    with st Cons.prems(1) show ?thesis by (auto simp: counts_tick)
  qed
  with Cons.IH st(3) show ?case by blast
qed

text \<open>
  Claim C8, as the code has it. In every state reached by a balanced sequence of calls
  and ticks: \<open>rUnlock\<close> raises when no read acquisition is outstanding (none granted and
  unreleased, none queued or woken), and \<open>unlock\<close> raises when no writer has claimed the
  lock (none holding it, none waiting for readers to drain, none woken).
\<close>

theorem rwmutex_misuse_detected:
  assumes "exec balanced es new_rwmutex = Some m"
  shows "(outstanding_reads m = 0 \<longrightarrow> rUnlock m = Inl RUnlockNonLocked) \<and>
         (claimed_writers m = 0 \<longrightarrow> unlock m = Inl UnlockNonLocked)"
  using counts_exec[OF counts_new assms]
  by (auto simp: lock_counts_def rUnlock_def unlock_def)

text \<open>
  After a reader has entered and left, the lock is as new: a second \<open>rUnlock\<close> raises,
  and so does \<open>unlock\<close>.
\<close>

theorem rwmutex_misuse_detected_witness:
  "exec balanced [RLock 1, RUnlock] new_rwmutex = Some new_rwmutex \<and>
   outstanding_reads new_rwmutex = 0 \<and> rUnlock new_rwmutex = Inl RUnlockNonLocked \<and>
   claimed_writers new_rwmutex = 0 \<and> unlock new_rwmutex = Inl UnlockNonLocked"
proof -
  have run: "exec balanced [RLock 1, RUnlock] new_rwmutex = Some new_rwmutex"
    by (simp add: lock_eval)
  have "outstanding_reads new_rwmutex = 0" "claimed_writers new_rwmutex = 0"
    by (simp_all add: lock_eval)
  with run rwmutex_misuse_detected[OF run] show ?thesis by simp
qed

text \<open>
  Claim C8 as it is stated does not hold for \<open>unlock\<close>: its guard reads the counter,
  which is negative from the moment a writer claims the lock, not from the moment it
  holds it. After a reader has entered and a writer has asked, no writer holds the
  lock, yet \<open>unlock\<close> returns: it restores the counter and releases the base mutex, and
  the writer stays in its queue.
\<close>

theorem rwmutex_misuse_undetected:
  "map_option activeWriters (exec balanced [RLock 1, Lock 2] new_rwmutex) = Some 0 \<and>
   map_option unlock (exec balanced [RLock 1, Lock 2] new_rwmutex) =
     Some (Inr \<lparr>locked = False, waiters = [], readerWaiters = [], writerWaiters = [WriterCb 2],
       readerCount = 1, readerWait = 1, immediates = [], activeReaders = 1, activeWriters = 0\<rparr>)"
  by (simp add: lock_eval)

section \<open>Properties of the loader\<close>

subsection \<open>The walk, segment by segment\<close>

text \<open>A walk over \<open>xs @ ys\<close> is the walk over \<open>xs\<close>, followed, when that went through all of
  \<open>xs\<close>, by the walk over \<open>ys\<close> from where it ended. The provider is called for paths the
  walk accumulates, in their order.\<close>

lemma walk_append:
  "walk rd (xs @ ys) p idx =
     (case walk rd xs p idx of
        (WalkedAll, idx1, c1) \<Rightarrow>
          (case walk rd ys (foldl join_path p xs) idx1 of (e, idx2, c2) \<Rightarrow> (e, idx2, c1 @ c2))
      | (StoppedAt q, idx1, c1) \<Rightarrow> (StoppedAt q, idx1, c1)
      | (LoadFailed err, idx1, c1) \<Rightarrow> (LoadFailed err, idx1, c1))"
proof (induction xs arbitrary: p idx)
  case Nil
  then show ?case by (simp split: prod.splits)
next
  case (Cons s xs)
  show ?case
    by (simp add: Cons.IH Let_def getInode_def
        split: option.splits inode.splits settled.splits prod.splits walk_end.splits)
qed

lemma walk_calls_subseq:
  "walk rd xs p idx = (e, idx', calls) \<Longrightarrow> subseq calls (accumulated p xs)"
proof (induction xs arbitrary: p idx e idx' calls)
  case Nil
  then show ?case by simp
next
  case (Cons s xs)
  then show ?case
    by (auto simp: Let_def getInode_def
        split: option.splits inode.splits settled.splits prod.splits if_splits)
qed


subsection \<open>Loaded directories stay loaded\<close>

lemma loaded_addPathFast:
  "is_loaded_dir (idx q) \<Longrightarrow> is_loaded_dir ((addPathFast idx k node) q)"
  by (cases "idx q"; cases "idx (butlast k)")
     (auto simp: addPathFast_def split: option.splits inode.splits)

lemma dir_addPathFast:
  "is_dir (idx q) \<Longrightarrow> is_dir ((addPathFast idx k node) q)"
  by (cases "idx q"; cases "idx (butlast k)")
     (auto simp: addPathFast_def split: option.splits inode.splits)

lemma loaded_add_entries:
  "is_loaded_dir (idx q) \<Longrightarrow> is_loaded_dir ((foldl (add_entry p) idx es) q)"
  by (induction es arbitrary: idx) (simp_all add: add_entry_def loaded_addPathFast)

lemma dir_add_entries:
  "is_dir (idx q) \<Longrightarrow> is_dir ((foldl (add_entry p) idx es) q)"
  by (induction es arbitrary: idx) (simp_all add: add_entry_def dir_addPathFast)

lemma loaded_mark_loaded:
  "is_loaded_dir (idx q) \<Longrightarrow> is_loaded_dir ((mark_loaded idx p) q)"
  by (auto simp: mark_loaded_def split: option.splits inode.splits)

lemma mark_loaded_self:
  "is_dir (idx p) \<Longrightarrow> is_loaded_dir ((mark_loaded idx p) p)"
  by (cases "idx p") (auto simp: mark_loaded_def split: inode.splits)

lemma walk_loaded_mono:
  "walk rd xs p idx = (e, idx', calls) \<Longrightarrow> is_loaded_dir (idx q) \<Longrightarrow> is_loaded_dir (idx' q)"
proof (induction xs arbitrary: p idx e idx' calls)
  case Nil
  then show ?case by simp
next
  case (Cons s xs)
  let ?p = "join_path p s"
  show ?case
  proof (cases "idx ?p")
    case None
    with Cons.prems show ?thesis by (simp add: getInode_def)
  next
    case (Some node)
    show ?thesis
    proof (cases node)
      case (FileInode st x)
      with Some Cons.prems show ?thesis by (simp add: getInode_def)
    next
      case (DirInode names loaded x)
      show ?thesis
      proof (cases loaded)
        case True
        with Some DirInode Cons.prems have "walk rd xs ?p idx = (e, idx', calls)"
          by (simp add: getInode_def)
        from Cons.IH[OF this Cons.prems(2)] show ?thesis .
      next
        case False
        show ?thesis
        proof (cases "rd ?p x")
          case (Resolved es)
          define idx2 where "idx2 = mark_loaded (foldl (add_entry ?p) idx es) ?p"
          obtain e3 idx3 c3 where w: "walk rd xs ?p idx2 = (e3, idx3, c3)"
            by (cases "walk rd xs ?p idx2") auto
          with Some DirInode False Resolved Cons.prems have "idx' = idx3"
            by (simp add: getInode_def Let_def idx2_def)
          moreover from Cons.prems(2) have "is_loaded_dir (idx2 q)"
            by (simp add: idx2_def loaded_mark_loaded loaded_add_entries)
          ultimately show ?thesis using Cons.IH[OF w] by simp
        next
          case (Rejected err)
          with Some DirInode False Cons.prems show ?thesis by (simp add: getInode_def)
        next
          case (Thrown err)
          with Some DirInode False Cons.prems show ?thesis by (simp add: getInode_def)
        qed
      qed
    qed
  qed
qed


text \<open>Where a walk ends: after all segments, with every accumulated path a loaded
  directory; or at an accumulated path that is not a directory, with those before it
  loaded directories.\<close>

lemma walk_result:
  "walk rd xs p idx = (e, idx', calls) \<Longrightarrow>
     (e = WalkedAll \<longrightarrow> (\<forall>a \<in> set (accumulated p xs). is_loaded_dir (idx' a))) \<and>
     (\<forall>q. e = StoppedAt q \<longrightarrow>
        (\<exists>ys zs. accumulated p xs = ys @ q # zs \<and> \<not> is_dir (idx' q) \<and>
           (\<forall>a \<in> set ys. is_loaded_dir (idx' a))))"
proof (induction xs arbitrary: p idx e idx' calls)
  case Nil
  then show ?case by simp
next
  case (Cons s xs)
  let ?p = "join_path p s"
  have stop: ?case if "\<not> is_dir (idx ?p)"
  proof -
    from that Cons.prems have "e = StoppedAt ?p" "idx' = idx"
      by (auto simp: getInode_def Let_def split: option.splits inode.splits)
    moreover have "accumulated p (s # xs) = [] @ ?p # accumulated ?p xs" by simp
    ultimately show ?thesis using that by (metis empty_iff list.set(1) walk_end.distinct(1) walk_end.inject(1))
  qed
  have go: ?case if w: "walk rd xs ?p idx2 = (e, idx', c)" and l: "is_loaded_dir (idx2 ?p)" for idx2 c
  proof -
    from walk_loaded_mono[OF w l] have here: "is_loaded_dir (idx' ?p)" .
    from Cons.IH[OF w] have all: "e = WalkedAll \<longrightarrow> (\<forall>a \<in> set (accumulated ?p xs). is_loaded_dir (idx' a))"
      and st: "\<forall>q. e = StoppedAt q \<longrightarrow>
        (\<exists>ys zs. accumulated ?p xs = ys @ q # zs \<and> \<not> is_dir (idx' q) \<and>
           (\<forall>a \<in> set ys. is_loaded_dir (idx' a)))" by blast+
    from all here have "e = WalkedAll \<longrightarrow> (\<forall>a \<in> set (accumulated p (s # xs)). is_loaded_dir (idx' a))"
      by simp
    moreover have "\<exists>ys zs. accumulated p (s # xs) = ys @ q # zs \<and> \<not> is_dir (idx' q) \<and>
           (\<forall>a \<in> set ys. is_loaded_dir (idx' a))" if "e = StoppedAt q" for q
    proof -
      from st that obtain ys zs where "accumulated ?p xs = ys @ q # zs" "\<not> is_dir (idx' q)"
        "\<forall>a \<in> set ys. is_loaded_dir (idx' a)" by blast
      with here have "accumulated p (s # xs) = (?p # ys) @ q # zs \<and> \<not> is_dir (idx' q) \<and>
           (\<forall>a \<in> set (?p # ys). is_loaded_dir (idx' a))" by simp
      then show ?thesis by blast
    qed
    ultimately show ?thesis by blast
  qed
  show ?case
  proof (cases "idx ?p")
    case None
    then show ?thesis by (intro stop) simp
  next
    case (Some node)
    show ?thesis
    proof (cases node)
      case (FileInode st x)
      with Some show ?thesis by (intro stop) simp
    next
      case (DirInode names loaded x)
      show ?thesis
      proof (cases loaded)
        case True
        with Some DirInode Cons.prems have "walk rd xs ?p idx = (e, idx', calls)"
          by (simp add: getInode_def)
        moreover from True Some DirInode have "is_loaded_dir (idx ?p)" by simp
        ultimately show ?thesis by (rule go)
      next
        case False
        show ?thesis
        proof (cases "rd ?p x")
          case (Resolved es)
          define idx2 where "idx2 = mark_loaded (foldl (add_entry ?p) idx es) ?p"
          obtain e3 idx3 c3 where w: "walk rd xs ?p idx2 = (e3, idx3, c3)"
            by (cases "walk rd xs ?p idx2") auto
          with Some DirInode False Resolved Cons.prems have "idx' = idx3" "e = e3"
            by (simp_all add: getInode_def Let_def idx2_def)
          with w have w': "walk rd xs ?p idx2 = (e, idx', c3)" by simp
          from Some DirInode have "is_dir (idx ?p)" by simp
          then have "is_loaded_dir (idx2 ?p)"
            unfolding idx2_def by (intro mark_loaded_self dir_add_entries)
          with w' show ?thesis by (rule go)
        next
          case (Rejected err)
          with Some DirInode False Cons.prems have "e = LoadFailed err" by (simp add: getInode_def)
          then show ?thesis by simp
        next
          case (Thrown err)
          with Some DirInode False Cons.prems have "e = LoadFailed err" by (simp add: getInode_def)
          then show ?thesis by simp
        qed
      qed
    qed
  qed
qed

subsection \<open>Well-formed indexes\<close>

lemma wf_new_index: "wf_index new_index"
  by (simp add: wf_index_def new_index_def)

lemma butlast_neq: "k \<noteq> [] \<Longrightarrow> butlast k \<noteq> k"
  by (metis length_butlast diff_less length_greater_0_conv less_irrefl zero_less_one)

lemma wf_addPathFast:
  assumes "wf_index idx"
  shows "wf_index (addPathFast idx k node)"
proof (cases "k \<noteq> [] \<and> is_dir (idx (butlast k)) \<and> idx k = None")
  case False
  then have "addPathFast idx k node = idx"
    by (cases "idx (butlast k)") (auto simp: addPathFast_def split: inode.splits)
  with assms show ?thesis by simp
next
  case True
  then obtain names loaded x where par: "idx (butlast k) = Some (DirInode names loaded x)"
    by (cases "idx (butlast k)") (auto elim: is_dir.elims)
  let ?idx = "idx(butlast k \<mapsto> DirInode (names @ [last k]) loaded x, k \<mapsto> node)"
  from True par have eq: "addPathFast idx k node = ?idx"
    by (simp add: addPathFast_def)
  from True have ne: "butlast k \<noteq> k" by (simp add: butlast_neq)
  have "is_dir (?idx (butlast j))" if j: "j \<noteq> []" "?idx j \<noteq> None" for j
  proof (cases "j = k")
    case True
    with ne show ?thesis by simp
  next
    case False
    show ?thesis
    proof (cases "j = butlast k")
      case True
      with par j assms have d: "is_dir (idx (butlast j))" by (simp add: wf_index_def)
      with \<open>k \<noteq> [] \<and> is_dir (idx (butlast k)) \<and> idx k = None\<close> have "butlast j \<noteq> k" by auto
      with d show ?thesis by simp
    next
      case False
      with \<open>j \<noteq> k\<close> j have "idx j \<noteq> None" by simp
      with j assms have d: "is_dir (idx (butlast j))" by (simp add: wf_index_def)
      with \<open>k \<noteq> [] \<and> is_dir (idx (butlast k)) \<and> idx k = None\<close> have "butlast j \<noteq> k" by auto
      with d show ?thesis by simp
    qed
  qed
  then show ?thesis unfolding eq wf_index_def by blast
qed

lemma wf_add_entries: "wf_index idx \<Longrightarrow> wf_index (foldl (add_entry p) idx es)"
  by (induction es arbitrary: idx) (simp_all add: add_entry_def wf_addPathFast)

lemma wf_mark_loaded: "wf_index idx \<Longrightarrow> wf_index (mark_loaded idx p)"
  by (cases "idx p") (auto simp: wf_index_def mark_loaded_def split: inode.splits)

lemma wf_walk:
  "walk rd xs p idx = (e, idx', calls) \<Longrightarrow> wf_index idx \<Longrightarrow> wf_index idx'"
proof (induction xs arbitrary: p idx e idx' calls)
  case Nil
  then show ?case by simp
next
  case (Cons s xs)
  let ?p = "join_path p s"
  show ?case
  proof (cases "idx ?p")
    case None
    with Cons.prems show ?thesis by (simp add: getInode_def)
  next
    case (Some node)
    show ?thesis
    proof (cases node)
      case (FileInode st x)
      with Some Cons.prems show ?thesis by (simp add: getInode_def)
    next
      case (DirInode names loaded x)
      show ?thesis
      proof (cases loaded)
        case True
        with Some DirInode Cons.prems have "walk rd xs ?p idx = (e, idx', calls)"
          by (simp add: getInode_def)
        from Cons.IH[OF this Cons.prems(2)] show ?thesis .
      next
        case False
        show ?thesis
        proof (cases "rd ?p x")
          case (Resolved es)
          define idx2 where "idx2 = mark_loaded (foldl (add_entry ?p) idx es) ?p"
          obtain e3 idx3 c3 where w: "walk rd xs ?p idx2 = (e3, idx3, c3)"
            by (cases "walk rd xs ?p idx2") auto
          with Some DirInode False Resolved Cons.prems have "idx' = idx3"
            by (simp add: getInode_def Let_def idx2_def)
          moreover from Cons.prems(2) have "wf_index idx2"
            by (simp add: idx2_def wf_mark_loaded wf_add_entries)
          ultimately show ?thesis using Cons.IH[OF w] by simp
        next
          case (Rejected err)
          with Some DirInode False Cons.prems show ?thesis by (simp add: getInode_def)
        next
          case (Thrown err)
          with Some DirInode False Cons.prems show ?thesis by (simp add: getInode_def)
        qed
      qed
    qed
  qed
qed

lemma wf_absent_below:
  assumes "wf_index idx" "\<not> is_dir (idx q)"
  shows "idx (q @ z # zs) = None"
proof (induction zs arbitrary: z rule: rev_induct)
  case Nil
  from assms show ?case by (auto simp: wf_index_def dest!: spec[of _ "q @ [z]"])
next
  case (snoc y ys)
  from snoc[of z] have "\<not> is_dir (idx (q @ z # ys))" by simp
  with assms(1) show ?case
    by (auto simp: wf_index_def dest!: spec[of _ "q @ z # ys @ [y]"] simp: butlast_append)
qed

subsection \<open>Segments and ancestors\<close>

text \<open>A segment of a path has no slash and is not empty, so joining it appends exactly
  it; the paths that \<open>loadEntry(path, false)\<close> accumulates are the ancestors of \<open>path\<close>.\<close>

lemma split_slash_not_Nil: "split_slash s \<noteq> []"
  by (induction s) (auto split: list.splits)

lemma split_slash_no_slash: "w \<in> set (split_slash s) \<Longrightarrow> CHR ''/'' \<notin> set w"
proof (induction s arbitrary: w)
  case Nil
  then show ?case by simp
next
  case (Cons c cs)
  then show ?case
    by (cases "split_slash cs") (auto simp: split_slash_not_Nil split: if_splits)
qed

lemma split_slash_id: "CHR ''/'' \<notin> set w \<Longrightarrow> split_slash w = [w]"
  by (induction w) auto

lemma segments_single: "s \<in> set (segments path) \<Longrightarrow> segments s = [s]"
  by (auto simp: segments_def split_slash_id dest: split_slash_no_slash)

lemma accumulated_single:
  "\<forall>s \<in> set xs. segments s = [s] \<Longrightarrow>
   accumulated p xs = map ((@) p) (tl (prefixes xs))"
proof (induction xs arbitrary: p)
  case Nil
  then show ?case by simp
next
  case (Cons s xs)
  have "prefixes xs = [] # tl (prefixes xs)"
    by (cases xs) simp_all
  then have "map ((#) s) (prefixes xs) = [s] # map ((#) s) (tl (prefixes xs))"
    by (metis list.simps(9))
  with Cons show ?case
    by (simp add: join_path_def o_def)
qed

lemma butlast_prefixes: "xs \<noteq> [] \<Longrightarrow> butlast (prefixes xs) = prefixes (butlast xs)"
  by (cases xs rule: rev_cases) simp_all

lemma accumulated_root: "accumulated [] (''/'' # xs) = [] # accumulated [] xs"
  by (simp add: join_path_def segments_def)

lemma accumulated_pathList: "accumulated [] (pathList path False) = ancestors path"
proof (cases "segments path = []")
  case True
  then show ?thesis by (simp add: pathList_def ancestors_def)
next
  case False
  have single: "\<forall>s \<in> set (butlast (segments path)). segments s = [s]"
    by (auto dest: in_set_butlastD segments_single)
  have tl: "[] # tl (prefixes (butlast (segments path))) = prefixes (butlast (segments path))"
    by (cases "butlast (segments path)") simp_all
  have app: "map ((@) []) zs = zs" for zs :: "string list list"
    by (induction zs) simp_all
  from False show ?thesis
    unfolding pathList_def ancestors_def Let_def
    by (simp add: accumulated_root accumulated_single[OF single] butlast_prefixes app tl
        del: accumulated.simps)
qed

lemma prefixes_split_after:
  "prefixes xs = ys @ q # zs \<Longrightarrow> a \<in> set zs \<Longrightarrow> \<exists>b bs. a = q @ b # bs"
proof (induction xs arbitrary: ys q zs a)
  case Nil
  then show ?case by (simp add: Cons_eq_append_conv)
next
  case (Cons x xs)
  show ?case
  proof (cases ys)
    case Nil
    with Cons.prems show ?thesis by auto
  next
    case (Cons y ys')
    with Cons.prems(1) have "map ((#) x) (prefixes xs) = ys' @ q # zs" by simp
    then obtain us q' vs where sp: "prefixes xs = us @ q' # vs" "q = x # q'" "zs = map ((#) x) vs"
      by (auto simp: map_eq_append_conv map_eq_Cons_conv)
    with Cons.prems(2) obtain a' where a': "a = x # a'" "a' \<in> set vs" by auto
    from Cons.IH[OF sp(1) a'(2)] obtain b bs where "a' = q' @ b # bs" by blast
    with a' sp show ?thesis by simp
  qed
qed

lemma ancestors_split_after:
  assumes "ancestors path = ys @ q # zs" "a \<in> set zs"
  shows "\<exists>b bs. a = q @ b # bs"
proof (cases "segments path = []")
  case True
  with assms show ?thesis by (simp add: ancestors_def)
next
  case False
  with assms(1) have "prefixes (butlast (segments path)) = ys @ q # zs"
    by (simp add: ancestors_def butlast_prefixes)
  from prefixes_split_after[OF this assms(2)] show ?thesis .
qed

subsection \<open>Where the walk stops and where it fails\<close>

lemmas loader_eval = loadEntry_def pathList_def segments_def join_path_def getInode_def
  add_entry_def entry_node_def addPathFast_def mark_loaded_def new_index_def Let_def
  example_listing_def

lemma walk_stop:
  "\<not> is_dir (getInode idx (join_path p s)) \<Longrightarrow>
   walk rd (s # rest) p idx = (StoppedAt (join_path p s), idx, [])"
  by (cases "idx (join_path p s)") (auto simp: getInode_def Let_def split: inode.splits)

lemma walk_fail:
  "getInode idx (join_path p s) = Some (DirInode names False x) \<Longrightarrow>
   rd (join_path p s) x = Rejected err \<or> rd (join_path p s) x = Thrown err \<Longrightarrow>
   walk rd (s # rest) p idx = (LoadFailed err, idx, [join_path p s])"
  by (auto simp: Let_def)

text \<open>
  Claim C4. Let the segments of \<open>pathList\<close> be \<open>before\<close>, then \<open>s\<close>, then \<open>after\<close>, and let
  the walk over \<open>before\<close> have gone through all of them, leaving the index \<open>idx1\<close> after
  the provider calls \<open>calls1\<close>. If the path accumulated at \<open>s\<close> is absent from \<open>idx1\<close> or
  is not a directory there, then \<open>loadEntry\<close> succeeds, with the index \<open>idx1\<close> and no
  provider call beyond \<open>calls1\<close>: nothing is attempted for \<open>s\<close> or any segment of
  \<open>after\<close>. The provider calls of any \<open>loadEntry\<close> are for accumulated paths of its
  \<open>pathList\<close>, in their order from the root to the leaf.
\<close>

theorem loadEntry_stops_at_unresolvable:
  assumes "pathList path loadBase = before @ s # after"
    and "walk readDirectory before [] idx = (WalkedAll, idx1, calls1)"
    and "\<not> is_dir (getInode idx1 (join_path (foldl join_path [] before) s))"
  shows "loadEntry readDirectory path loadBase idx = (Inr (), idx1, calls1) \<and>
         subseq calls1 (accumulated [] before) \<and>
         subseq (snd (snd (loadEntry readDirectory path loadBase idx)))
           (accumulated [] (pathList path loadBase))"
proof -
  let ?q = "join_path (foldl join_path [] before) s"
  from assms(3) have "walk readDirectory (s # after) (foldl join_path [] before) idx1 =
      (StoppedAt ?q, idx1, [])"
    by (rule walk_stop)
  with assms(1,2) have "walk readDirectory (pathList path loadBase) [] idx = (StoppedAt ?q, idx1, calls1)"
    by (simp add: walk_append)
  then have "loadEntry readDirectory path loadBase idx = (Inr (), idx1, calls1)"
    by (simp add: loadEntry_def)
  moreover from assms(2) have "subseq calls1 (accumulated [] before)"
    by (rule walk_calls_subseq)
  moreover have "subseq (snd (snd (loadEntry readDirectory path loadBase idx)))
           (accumulated [] (pathList path loadBase))"
    by (cases "walk readDirectory (pathList path loadBase) [] idx")
       (auto simp: loadEntry_def dest: walk_calls_subseq)
  ultimately show ?thesis by simp
qed

text \<open>
  Loading \<open>/f.txt/x/y\<close> from the new index lists the root and stops at \<open>/f.txt\<close>, which is
  a file: the load succeeds and the root is the only path listed.
\<close>

theorem loadEntry_stops_at_unresolvable_witness:
  "pathList ''/f.txt/x/y'' False = [''/''] @ ''f.txt'' # [''x''] \<and>
   fst (walk example_listing [''/''] [] new_index) = WalkedAll \<and>
   \<not> is_dir (getInode (fst (snd (walk example_listing [''/''] [] new_index)))
      (join_path (foldl join_path [] [''/'']) ''f.txt'')) \<and>
   fst (loadEntry example_listing ''/f.txt/x/y'' False new_index) = Inr () \<and>
   snd (snd (loadEntry example_listing ''/f.txt/x/y'' False new_index)) = [[]]"
proof -
  have h1: "pathList ''/f.txt/x/y'' False = [''/''] @ ''f.txt'' # [''x'']"
    by (simp add: loader_eval)
  have w: "fst (walk example_listing [''/''] [] new_index) = WalkedAll"
    "snd (snd (walk example_listing [''/''] [] new_index)) = [[]]"
    by (simp_all add: loader_eval)
  then have h2: "walk example_listing [''/''] [] new_index =
      (WalkedAll, fst (snd (walk example_listing [''/''] [] new_index)), [[]])"
    by (metis prod.collapse)
  have h3: "\<not> is_dir (getInode (fst (snd (walk example_listing [''/''] [] new_index)))
      (join_path (foldl join_path [] [''/'']) ''f.txt''))"
    by (simp add: loader_eval)
  from loadEntry_stops_at_unresolvable[OF h1 h2 h3] h1 w h3 show ?thesis by simp
qed


text \<open>
  Claim C5. After \<open>loadEntry(path, false)\<close> has succeeded on a well-formed index, either
  every ancestor of \<open>path\<close> is a directory with \<open>entriesLoaded\<close> set, or the ancestors are
  \<open>ys\<close>, then \<open>q\<close>, then \<open>zs\<close>, from the root on, where \<open>q\<close> is absent or not a directory,
  every ancestor in \<open>ys\<close> is a directory with \<open>entriesLoaded\<close> set, and every ancestor in
  \<open>zs\<close> is absent from the index. The new index is well formed and \<open>stat\<close>, \<open>open\<close> and
  \<open>readdir\<close> keep an index well formed (\<open>wf_new_index\<close>, \<open>wf_operations\<close>).
\<close>

theorem loadEntry_ancestors_loaded:
  assumes "wf_index idx"
    and "loadEntry readDirectory path False idx = (Inr u, idx', calls)"
  shows "(\<forall>a \<in> set (ancestors path). is_loaded_dir (getInode idx' a)) \<or>
         (\<exists>ys q zs. ancestors path = ys @ q # zs \<and> \<not> is_dir (getInode idx' q) \<and>
            (\<forall>a \<in> set ys. is_loaded_dir (getInode idx' a)) \<and>
            (\<forall>a \<in> set zs. getInode idx' a = None))"
proof -
  obtain e where w: "walk readDirectory (pathList path False) [] idx = (e, idx', calls)"
    and e: "promise_of e = Inr u"
    using assms(2) by (auto simp: loadEntry_def split: prod.splits)
  from wf_walk[OF w assms(1)] have wf: "wf_index idx'" .
  note res = walk_result[OF w, unfolded accumulated_pathList]
  show ?thesis
  proof (cases e)
    case WalkedAll
    with res show ?thesis by (simp add: getInode_def)
  next
    case (StoppedAt q)
    with res obtain ys zs where sp: "ancestors path = ys @ q # zs" "\<not> is_dir (idx' q)"
      "\<forall>a \<in> set ys. is_loaded_dir (idx' a)" by blast
    have "idx' a = None" if "a \<in> set zs" for a
    proof -
      from ancestors_split_after[OF sp(1) that] obtain b bs where "a = q @ b # bs" by blast
      with wf_absent_below[OF wf sp(2)] show ?thesis by simp
    qed
    with sp show ?thesis unfolding getInode_def by blast
  next
    case (LoadFailed err)
    with e show ?thesis by simp
  qed
qed

text \<open>
  After loading \<open>/f.txt/x/y\<close> from the new index the root is loaded, \<open>/f.txt\<close> is not a
  directory, and \<open>/f.txt/x\<close> is absent.
\<close>

theorem loadEntry_ancestors_loaded_witness:
  "wf_index (new_index :: unit file_index) \<and>
   fst (loadEntry example_listing ''/f.txt/x/y'' False new_index) = Inr () \<and>
   ancestors ''/f.txt/x/y'' = [[]] @ [''f.txt''] # [[''f.txt'', ''x'']] \<and>
   \<not> is_dir (getInode (fst (snd (loadEntry example_listing ''/f.txt/x/y'' False new_index)))
      [''f.txt'']) \<and>
   is_loaded_dir (getInode (fst (snd (loadEntry example_listing ''/f.txt/x/y'' False new_index))) []) \<and>
   getInode (fst (snd (loadEntry example_listing ''/f.txt/x/y'' False new_index)))
      [''f.txt'', ''x''] = None \<and>
   ((\<forall>a \<in> set (ancestors ''/f.txt/x/y'').
       is_loaded_dir (getInode (fst (snd (loadEntry example_listing ''/f.txt/x/y'' False new_index))) a)) \<or>
    (\<exists>ys q zs. ancestors ''/f.txt/x/y'' = ys @ q # zs \<and>
       \<not> is_dir (getInode (fst (snd (loadEntry example_listing ''/f.txt/x/y'' False new_index))) q) \<and>
       (\<forall>a \<in> set ys. is_loaded_dir
          (getInode (fst (snd (loadEntry example_listing ''/f.txt/x/y'' False new_index))) a)) \<and>
       (\<forall>a \<in> set zs.
          getInode (fst (snd (loadEntry example_listing ''/f.txt/x/y'' False new_index))) a = None)))"
proof -
  let ?r = "loadEntry example_listing ''/f.txt/x/y'' False new_index"
  have h1: "wf_index (new_index :: unit file_index)" by (rule wf_new_index)
  have r: "fst ?r = Inr ()" by (simp add: loader_eval)
  then have h2: "?r = (Inr (), fst (snd ?r), snd (snd ?r))" by (metis prod.collapse)
  have anc: "ancestors ''/f.txt/x/y'' = [[]] @ [''f.txt''] # [[''f.txt'', ''x'']]"
    by (simp add: ancestors_def segments_def)
  have facts: "\<not> is_dir (getInode (fst (snd ?r)) [''f.txt''])"
    "is_loaded_dir (getInode (fst (snd ?r)) [])"
    "getInode (fst (snd ?r)) [''f.txt'', ''x''] = None"
    by (simp_all add: loader_eval)
  from loadEntry_ancestors_loaded[OF h1 h2] h1 r anc facts show ?thesis by blast
qed

text \<open>
  Claim C6. Let the walk over the segments \<open>before\<close> have gone through all of them,
  leaving the index \<open>idx1\<close> after the provider calls \<open>calls1\<close>, and let the path \<open>q\<close>
  accumulated at the next segment be a directory of \<open>idx1\<close> that is not loaded. If the
  listing provider fails for \<open>q\<close>, by a rejected promise or by throwing, then \<open>loadEntry\<close>
  fails with that error, the call for \<open>q\<close> was its last, and the index it leaves is
  \<open>idx1\<close>: what the earlier segments inserted and marked is all there (every path
  accumulated before \<open>q\<close> is a loaded directory), and \<open>q\<close> is not marked.
\<close>

theorem loadEntry_failure_no_rollback:
  assumes "pathList path loadBase = before @ s # after"
    and "walk readDirectory before [] idx = (WalkedAll, idx1, calls1)"
    and "q = join_path (foldl join_path [] before) s"
    and "getInode idx1 q = Some (DirInode names False x)"
    and "readDirectory q x = Rejected err \<or> readDirectory q x = Thrown err"
  shows "loadEntry readDirectory path loadBase idx = (Inl err, idx1, calls1 @ [q]) \<and>
         (\<forall>a \<in> set (accumulated [] before). is_loaded_dir (getInode idx1 a)) \<and>
         \<not> is_loaded_dir (getInode idx1 q)"
proof -
  from assms(3,4,5) have "walk readDirectory (s # after) (foldl join_path [] before) idx1 =
      (LoadFailed err, idx1, [q])"
    using walk_fail by metis
  with assms(1,2) have "walk readDirectory (pathList path loadBase) [] idx =
      (LoadFailed err, idx1, calls1 @ [q])"
    by (simp add: walk_append)
  then have "loadEntry readDirectory path loadBase idx = (Inl err, idx1, calls1 @ [q])"
    by (simp add: loadEntry_def)
  moreover from walk_result[OF assms(2)]
  have "\<forall>a \<in> set (accumulated [] before). is_loaded_dir (getInode idx1 a)"
    by (simp add: getInode_def)
  moreover from assms(4) have "\<not> is_loaded_dir (getInode idx1 q)" by simp
  ultimately show ?thesis by simp
qed

text \<open>
  Loading \<open>/a/b/c\<close> from the new index lists the root, then fails at \<open>/a\<close>: the error is
  the provider's, the root stays loaded with its two children, and the file \<open>/f.txt\<close>
  inserted by the root's listing is still there.
\<close>

theorem loadEntry_failure_no_rollback_witness:
  "pathList ''/a/b/c'' False = [''/''] @ ''a'' # [''b''] \<and>
   fst (walk example_listing [''/''] [] new_index) = WalkedAll \<and>
   getInode (fst (snd (walk example_listing [''/''] [] new_index))) [''a''] =
     Some (DirInode [] False None) \<and>
   example_listing [''a''] None = Rejected (JsError ''unreachable'') \<and>
   fst (loadEntry example_listing ''/a/b/c'' False new_index) = Inl (JsError ''unreachable'') \<and>
   snd (snd (loadEntry example_listing ''/a/b/c'' False new_index)) = [[], [''a'']] \<and>
   getInode (fst (snd (loadEntry example_listing ''/a/b/c'' False new_index))) [] =
     Some (DirInode [''a'', ''f.txt''] True None) \<and>
   getInode (fst (snd (loadEntry example_listing ''/a/b/c'' False new_index))) [''f.txt''] =
     Some (FileInode \<lparr>itemType = FILE, fsize = - 1, mode = 365, fileData = None\<rparr> None)"
proof -
  let ?w = "walk example_listing [''/''] [] new_index"
  have h1: "pathList ''/a/b/c'' False = [''/''] @ ''a'' # [''b'']"
    by (simp add: loader_eval)
  have w: "fst ?w = WalkedAll" "snd (snd ?w) = [[]]"
    by (simp_all add: loader_eval)
  then have h2: "?w = (WalkedAll, fst (snd ?w), [[]])"
    by (metis prod.collapse)
  have h3: "[''a''] = join_path (foldl join_path [] [''/'']) ''a''"
    by (simp add: loader_eval)
  have h4: "getInode (fst (snd ?w)) [''a''] = Some (DirInode [] False None)"
    by (simp add: loader_eval)
  have h5: "example_listing [''a''] None = Rejected (JsError ''unreachable'') \<or>
      example_listing [''a''] None = Thrown (JsError ''unreachable'')"
    by (simp add: example_listing_def)
  have more: "getInode (fst (snd ?w)) [] = Some (DirInode [''a'', ''f.txt''] True None)"
    "getInode (fst (snd ?w)) [''f.txt''] =
       Some (FileInode \<lparr>itemType = FILE, fsize = - 1, mode = 365, fileData = None\<rparr> None)"
    "example_listing [''a''] None = Rejected (JsError ''unreachable'')"
    by (simp_all add: loader_eval)
  from loadEntry_failure_no_rollback[OF h1 h2 h3 h4 h5] h1 w h4 more show ?thesis by simp
qed

subsection \<open>The wrapped operations\<close>

text \<open>Whether the load succeeds or fails, the raw operation runs on the index the load
  left.\<close>

lemma wrapped_runs_raw:
  "wrapped rd lb rawFn path idx =
     (fst (rawFn (fst (snd (loadEntry rd path lb idx)))),
      snd (rawFn (fst (snd (loadEntry rd path lb idx)))),
      snd (snd (loadEntry rd path lb idx)))"
  by (simp add: wrapped_def finallyPromise_def split: prod.splits sum.splits)

text \<open>
  Claim C7. For every path, index and provider, \<open>open\<close> with flags that ask for write
  access calls back with the permission-denied error for that path.
\<close>

theorem open_write_denied:
  assumes "isWriteable flags"
  shows "fst (open_file readDirectory readFile path flags idx) = Some (Inl (ApiError EPERM path))"
  using assms by (simp add: open_file_def wrapped_runs_raw raw_open_def)

text \<open>
  \<open>/missing\<close> is not in the index after the load; opened for writing it gives
  permission-denied, opened for reading it gives not-found.
\<close>

theorem open_write_denied_witness:
  "isWriteable \<lparr>isWriteable = True, pathExistsAction = NOP\<rparr> \<and>
   getInode (fst (snd (open_file example_listing example_reader ''/missing''
       \<lparr>isWriteable = True, pathExistsAction = NOP\<rparr> new_index))) [''missing''] = None \<and>
   fst (open_file example_listing example_reader ''/missing''
       \<lparr>isWriteable = True, pathExistsAction = NOP\<rparr> new_index) =
     Some (Inl (ApiError EPERM ''/missing'')) \<and>
   fst (open_file example_listing example_reader ''/missing''
       \<lparr>isWriteable = False, pathExistsAction = NOP\<rparr> new_index) =
     Some (Inl (ApiError ENOENT ''/missing''))"
proof -
  have h: "isWriteable \<lparr>isWriteable = True, pathExistsAction = NOP\<rparr>" by simp
  have "getInode (fst (snd (open_file example_listing example_reader ''/missing''
       \<lparr>isWriteable = True, pathExistsAction = NOP\<rparr> new_index))) [''missing''] = None"
    "fst (open_file example_listing example_reader ''/missing''
       \<lparr>isWriteable = False, pathExistsAction = NOP\<rparr> new_index) =
     Some (Inl (ApiError ENOENT ''/missing''))"
    by (simp_all add: open_file_def wrapped_runs_raw raw_open_def loader_eval)
  with open_write_denied[OF h, of example_listing example_reader "''/missing''" new_index] h
  show ?thesis by simp
qed

text \<open>
  Claim C9. When the \<open>loadEntry\<close> that precedes \<open>stat\<close>, \<open>open\<close> or \<open>readdir\<close> fails, leaving
  the index \<open>idx1\<close>, the wrapped operation calls back with exactly what the raw operation
  calls back with on \<open>idx1\<close>, and leaves the index the raw operation leaves: the error
  of the listing provider is not what the callback gets.
\<close>

theorem failed_load_still_runs_raw:
  "(loadEntry readDirectory path False idx = (Inl err, idx1, calls) \<longrightarrow>
      stat readDirectory statp dir_stats path idx =
        (fst (raw_stat statp dir_stats path idx1), snd (raw_stat statp dir_stats path idx1), calls) \<and>
      open_file readDirectory readFile path flags idx =
        (fst (raw_open readFile path flags idx1), snd (raw_open readFile path flags idx1), calls)) \<and>
   (loadEntry readDirectory path True idx = (Inl err', idx2, calls') \<longrightarrow>
      readdir readDirectory path idx =
        (fst (raw_readdir path idx2), snd (raw_readdir path idx2), calls'))"
  by (simp add: stat_def open_file_def readdir_def wrapped_runs_raw)

text \<open>
  The listing of \<open>/a\<close> fails, so the loads for \<open>/a/b\<close> fail; \<open>stat\<close>, \<open>open\<close> and \<open>readdir\<close>
  of \<open>/a/b\<close> call back with not-found, not with the provider's error, and \<open>stat\<close> of \<open>/a\<close>
  itself succeeds.
\<close>

theorem failed_load_still_runs_raw_witness:
  "fst (loadEntry example_listing ''/a/b'' False new_index) = Inl (JsError ''unreachable'') \<and>
   fst (loadEntry example_listing ''/a/b'' True new_index) = Inl (JsError ''unreachable'') \<and>
   fst (stat example_listing None example_dir_stats ''/a/b'' new_index) =
     Some (Inl (ApiError ENOENT ''/a/b'')) \<and>
   fst (open_file example_listing example_reader ''/a/b''
      \<lparr>isWriteable = False, pathExistsAction = NOP\<rparr> new_index) =
     Some (Inl (ApiError ENOENT ''/a/b'')) \<and>
   fst (readdir example_listing ''/a/b'' new_index) = Some (Inl (ApiError ENOENT ''/a/b'')) \<and>
   fst (stat example_listing None example_dir_stats ''/a'' new_index) = Some (Inr example_dir_stats)"
proof -
  let ?f = "loadEntry example_listing ''/a/b'' False new_index"
  let ?t = "loadEntry example_listing ''/a/b'' True new_index"
  have f: "fst ?f = Inl (JsError ''unreachable'')" by (simp add: loader_eval)
  have t: "fst ?t = Inl (JsError ''unreachable'')" by (simp add: loader_eval)
  from f have hf: "?f = (Inl (JsError ''unreachable''), fst (snd ?f), snd (snd ?f))"
    by (metis prod.collapse)
  from t have ht: "?t = (Inl (JsError ''unreachable''), fst (snd ?t), snd (snd ?t))"
    by (metis prod.collapse)
  have raw: "fst (raw_stat None example_dir_stats ''/a/b'' (fst (snd ?f))) =
       Some (Inl (ApiError ENOENT ''/a/b''))"
    "fst (raw_open example_reader ''/a/b'' \<lparr>isWriteable = False, pathExistsAction = NOP\<rparr>
       (fst (snd ?f))) = Some (Inl (ApiError ENOENT ''/a/b''))"
    "fst (raw_readdir ''/a/b'' (fst (snd ?t))) = Some (Inl (ApiError ENOENT ''/a/b''))"
    by (simp_all add: raw_stat_def raw_open_def raw_readdir_def loader_eval)
  have other: "fst (stat example_listing None example_dir_stats ''/a'' new_index) =
      Some (Inr example_dir_stats)"
    by (simp add: stat_def wrapped_runs_raw raw_stat_def loader_eval)
  from failed_load_still_runs_raw[of example_listing "''/a/b''" new_index
      "JsError ''unreachable''" "fst (snd ?f)" "snd (snd ?f)" None example_dir_stats
      example_reader "\<lparr>isWriteable = False, pathExistsAction = NOP\<rparr>"
      "JsError ''unreachable''" "fst (snd ?t)" "snd (snd ?t)"] hf ht
  have "fst (stat example_listing None example_dir_stats ''/a/b'' new_index) =
      fst (raw_stat None example_dir_stats ''/a/b'' (fst (snd ?f)))"
    "fst (open_file example_listing example_reader ''/a/b''
      \<lparr>isWriteable = False, pathExistsAction = NOP\<rparr> new_index) =
      fst (raw_open example_reader ''/a/b'' \<lparr>isWriteable = False, pathExistsAction = NOP\<rparr>
       (fst (snd ?f)))"
    "fst (readdir example_listing ''/a/b'' new_index) = fst (raw_readdir ''/a/b'' (fst (snd ?t)))"
    by simp_all
  with raw f t other show ?thesis by simp
qed

text \<open>
  Claim C10. \<open>loadEntry('/', false)\<close> succeeds on any index without changing it and
  without a call to the listing provider, and so \<open>stat\<close> and \<open>open\<close> of the root make no
  call to the listing provider.
\<close>

theorem root_needs_no_listing:
  "loadEntry readDirectory ''/'' False idx = (Inr (), idx, []) \<and>
   snd (snd (stat readDirectory statp dir_stats ''/'' idx)) = [] \<and>
   snd (snd (open_file readDirectory readFile ''/'' flags idx)) = []"
proof -
  have "loadEntry readDirectory ''/'' False idx = (Inr (), idx, [])"
    by (simp add: loadEntry_def pathList_def segments_def)
  then show ?thesis by (simp add: stat_def open_file_def wrapped_runs_raw)
qed

subsection \<open>Every operation keeps the index well formed\<close>

lemma wf_update_file:
  assumes "wf_index idx" "idx k = Some (FileInode st x)"
  shows "wf_index (idx(k \<mapsto> FileInode st' x))"
proof -
  have "is_dir ((idx(k \<mapsto> FileInode st' x)) (butlast j))"
    if j: "j \<noteq> []" "(idx(k \<mapsto> FileInode st' x)) j \<noteq> None" for j
  proof -
    from j assms(2) have "idx j \<noteq> None" by (auto split: if_splits)
    with j assms(1) have d: "is_dir (idx (butlast j))" by (simp add: wf_index_def)
    with assms(2) have "butlast j \<noteq> k" by auto
    with d show ?thesis by simp
  qed
  then show ?thesis unfolding wf_index_def by blast
qed

lemma wf_loadEntry:
  "wf_index idx \<Longrightarrow> wf_index (fst (snd (loadEntry rd path lb idx)))"
  by (cases "walk rd (pathList path lb) [] idx") (auto simp: loadEntry_def dest: wf_walk)

lemma wf_raw_stat: "wf_index idx \<Longrightarrow> wf_index (snd (raw_stat statp ds path idx))"
  by (auto simp: raw_stat_def getInode_def wf_update_file
      split: option.splits inode.splits settled.splits)

lemma wf_raw_open: "wf_index idx \<Longrightarrow> wf_index (snd (raw_open rf path flags idx))"
  by (auto simp: raw_open_def getInode_def wf_update_file Let_def
      split: option.splits inode.splits settled.splits action_type.splits)

lemma wf_raw_readdir: "wf_index idx \<Longrightarrow> wf_index (snd (raw_readdir path idx))"
  by (auto simp: raw_readdir_def split: option.splits inode.splits)

lemma wf_wrapped:
  assumes "wf_index idx" "\<And>i. wf_index i \<Longrightarrow> wf_index (snd (rawFn i))"
  shows "wf_index (fst (snd (wrapped rd lb rawFn path idx)))"
  using assms by (simp add: wrapped_runs_raw wf_loadEntry)

lemma wf_operations:
  assumes "wf_index idx"
  shows "wf_index (fst (snd (stat rd statp ds path idx)))"
    and "wf_index (fst (snd (open_file rd rf path flags idx)))"
    and "wf_index (fst (snd (readdir rd path idx)))"
  using assms
  by (simp_all add: stat_def open_file_def readdir_def wf_wrapped wf_raw_stat wf_raw_open
      wf_raw_readdir)

section \<open>Properties of the coalescer\<close>

subsection \<open>Calls that find an entry, and the first call\<close>

lemma wrap_cached: "cache s key = Some p \<Longrightarrow> wrap key a s = (Got p, s)"
  by (simp add: wrap_def)

lemma wrap_all_cached:
  "cache s key = Some p \<Longrightarrow> wrap_all key as s = (replicate (length as) (Got p), s)"
  by (induction as) (simp_all add: wrap_cached)

lemma wrap_first_later:
  assumes "cache s key = None"
  shows "wrap key Later s =
    (Got (fresh s + 1),
     s\<lparr>invoked := invoked s @ [key],
       promises := (promises s)
         (fresh s := Pending [(ThenFinally key, CatchFinally key, fresh s + 1)],
          fresh s + 1 := Pending []),
       fresh := fresh s + 2,
       cache := (cache s)(key \<mapsto> fresh s)\<rparr>)"
  using assms
  by (simp add: wrap_def finallyPromise_rt_def then_promise_def new_promise_def Let_def fun_upd_twist)

lemma after_calls_state:
  assumes "cache s key = None"
  shows "after_calls key answers s =
     s\<lparr>invoked := invoked s @ [key],
       promises := (promises s)
         (fresh s := Pending [(ThenFinally key, CatchFinally key, fresh s + 1)],
          fresh s + 1 := Pending []),
       fresh := fresh s + 2,
       cache := (cache s)(key \<mapsto> fresh s)\<rparr>"
  by (simp add: after_calls_def wrap_first_later[OF assms] wrap_all_cached[where p = "fresh s"])

subsection \<open>Settling and the jobs that follow\<close>

lemmas runtime_eval = settle_def microtask_def then_promise_def new_promise_def
  after_finally_def finallyPromise_rt_def Let_def

subsection \<open>What a job can reach\<close>

lemma job_for_refs: "job_refs (job_for out r) \<subseteq> reaction_refs r"
  by (cases out; cases r) auto

lemma settle_effect:
  assumes "reactions_in A s" "p \<in> A"
  shows "job_effect A s (settle p out s)"
proof (cases "promises s p")
  case (Pending rs)
  with assms have "\<forall>r \<in> set rs. reaction_refs r \<subseteq> A" by (auto simp: reactions_in_def)
  with job_for_refs have "\<forall>j \<in> set (map (job_for out) rs). job_refs j \<subseteq> A" by fastforce
  with Pending assms show ?thesis
    by (auto simp: job_effect_def settle_def reactions_in_def)
next
  case (Settled x)
  with assms show ?thesis by (simp add: job_effect_def settle_def)
qed

lemma job_effect_trans:
  assumes "job_effect A s s1" "job_effect (A \<union> {fresh s..<fresh s1}) s1 s2"
  shows "job_effect A s s2"
proof -
  from assms have le: "fresh s \<le> fresh s1" "fresh s1 \<le> fresh s2" by (auto simp: job_effect_def)
  then have un: "A \<union> {fresh s..<fresh s1} \<union> {fresh s1..<fresh s2} = A \<union> {fresh s..<fresh s2}"
    by auto
  from assms obtain n1 n2 where q: "microtasks s1 = microtasks s @ n1"
    "\<forall>j \<in> set n1. job_refs j \<subseteq> A \<union> {fresh s..<fresh s1}"
    "microtasks s2 = microtasks s1 @ n2"
    "\<forall>j \<in> set n2. job_refs j \<subseteq> A \<union> {fresh s..<fresh s1} \<union> {fresh s1..<fresh s2}"
    unfolding job_effect_def by blast
  have "microtasks s2 = microtasks s @ (n1 @ n2)" using q by simp
  moreover have "\<forall>j \<in> set (n1 @ n2). job_refs j \<subseteq> A \<union> {fresh s..<fresh s2}"
    using q(2,4) le unfolding un[symmetric] by auto
  moreover from assms have "reactions_in (A \<union> {fresh s..<fresh s2}) s2"
    unfolding job_effect_def un by blast
  moreover have "promises s2 n = promises s n" if "n \<notin> A" "n < fresh s" for n
  proof -
    from that le have "n \<notin> A \<union> {fresh s..<fresh s1}" "n < fresh s1" by auto
    with assms that show ?thesis unfolding job_effect_def by metis
  qed
  moreover from assms have "invoked s2 = invoked s" by (simp add: job_effect_def)
  ultimately show ?thesis using le unfolding job_effect_def by (metis order_trans)
qed

lemma then_promise_effect:
  assumes "reactions_in A s" "p \<in> A" "handler_refs f \<subseteq> A" "handler_refs g \<subseteq> A"
  shows "job_effect A s (snd (then_promise p f g s))"
    and "fst (then_promise p f g s) = fresh s"
    and "fresh (snd (then_promise p f g s)) = fresh s + 1"
proof -
  let ?s1 = "s\<lparr>promises := (promises s)(fresh s := Pending []), fresh := fresh s + 1\<rparr>"
  have iv: "{fresh s..<fresh s + 1} = {fresh s}" by auto
  show "fst (then_promise p f g s) = fresh s" "fresh (snd (then_promise p f g s)) = fresh s + 1"
    by (cases "promises ?s1 p"; simp add: then_promise_def new_promise_def)+
  show "job_effect A s (snd (then_promise p f g s))"
  proof (cases "promises ?s1 p")
    case (Pending rs)
    then have eq: "snd (then_promise p f g s) =
        ?s1\<lparr>promises := (promises ?s1)(p := Pending (rs @ [(f, g, fresh s)]))\<rparr>"
      by (simp add: then_promise_def new_promise_def)
    from Pending assms have old: "\<forall>r \<in> set rs. reaction_refs r \<subseteq> insert (fresh s) A"
      by (fastforce simp: reactions_in_def split: if_splits)
    from assms old show ?thesis
      unfolding eq job_effect_def iv reactions_in_def
      by (auto split: if_splits)
  next
    case (Settled out)
    then have eq: "snd (then_promise p f g s) =
        ?s1\<lparr>microtasks := microtasks ?s1 @ [job_for out (f, g, fresh s)]\<rparr>"
      by (simp add: then_promise_def new_promise_def)
    have "job_refs (job_for out (f, g, fresh s)) \<subseteq> insert (fresh s) A"
      using job_for_refs[of out "(f, g, fresh s)"] assms(3,4) by auto
    with assms show ?thesis
      unfolding eq job_effect_def iv reactions_in_def
      by (auto split: if_splits)
  qed
qed

lemma after_finally_effect:
  assumes "reactions_in A s" "handler_refs h = {}"
  shows "job_effect A s (snd (after_finally key h s))"
    and "\<exists>r. fst (after_finally key h s) = ReturnsPromise r \<and> r \<in> {fresh s..<fresh (snd (after_finally key h s))}"
  using assms
  by (auto simp: after_finally_def then_promise_def new_promise_def Let_def job_effect_def
      reactions_in_def split: if_splits)

lemma job_effect_queue:
  assumes "job_effect A s s1" "job_refs j \<subseteq> A \<union> {fresh s..<fresh s1}"
  shows "job_effect A s (s1\<lparr>microtasks := microtasks s1 @ [j]\<rparr>)"
  using assms by (auto simp: job_effect_def reactions_in_def)

lemma run_job_effect:
  assumes "reactions_in A s" "job_refs j \<subseteq> A"
  shows "job_effect A s (run_job j s)"
proof (cases j)
  case (Adopt d r)
  with assms then_promise_effect(1)[of A s r "ResolveOf d" "RejectOf d"] show ?thesis by simp
next
  case (Reaction h out d)
  with assms have d: "d \<in> A" and h: "handler_refs h \<subseteq> A" by auto
  have fin: "job_effect A s (run_job (Reaction hf out d) s)"
    if "run_handler hf out s = after_finally key hh s" "handler_refs hh = {}" for hf key hh
  proof -
    from after_finally_effect[OF assms(1) that(2), of key]
    obtain r where e: "job_effect A s (snd (after_finally key hh s))"
      and r: "fst (after_finally key hh s) = ReturnsPromise r"
        "r \<in> {fresh s..<fresh (snd (after_finally key hh s))}" by blast
    from d r have "job_refs (Adopt d r) \<subseteq> A \<union> {fresh s..<fresh (snd (after_finally key hh s))}"
      by auto
    from job_effect_queue[OF e this] that(1) r(1) show ?thesis
      by (cases "after_finally key hh s") simp
  qed
  have returns: "job_effect A s (run_job (Reaction hf out d) s)"
    if "run_handler hf out s = (Returns v, s)" for hf v
    using that settle_effect[OF assms(1) d] by auto
  have throws: "job_effect A s (run_job (Reaction hf out d) s)"
    if "run_handler hf out s = (Throws e, s)" for hf e
    using that settle_effect[OF assms(1) d] by auto
  have res: "job_effect A s (run_job (Reaction hf out d) s)"
    if "run_handler hf out s = (Returns Undefined, settle t out s)" "t \<in> A" for hf t
  proof -
    from settle_effect[OF assms(1) that(2), of out] have e1: "job_effect A s (settle t out s)" .
    then have ri: "reactions_in (A \<union> {fresh s..<fresh (settle t out s)}) (settle t out s)"
      by (simp add: job_effect_def)
    from d have "d \<in> A \<union> {fresh s..<fresh (settle t out s)}" by simp
    from settle_effect[OF ri this] have "job_effect (A \<union> {fresh s..<fresh (settle t out s)})
      (settle t out s) (settle d (Fulfilled Undefined) (settle t out s))" .
    from job_effect_trans[OF e1 this] that(1) show ?thesis by simp
  qed
  have goal: ?thesis if "job_effect A s (run_job (Reaction h out d) s)"
    using that Reaction by simp
  show ?thesis
  proof (cases h)
    case (ThenFinally key)
    show ?thesis
    proof (cases out)
      case (Fulfilled v)
      with ThenFinally have "run_handler h out s = after_finally key (ReturnValue v) s" by simp
      from fin[OF this] show ?thesis by (intro goal) simp
    next
      case (RejectedWith e)
      with ThenFinally have "run_handler h out s = (Throws e, s)" by simp
      from throws[OF this] show ?thesis by (rule goal)
    qed
  next
    case (CatchFinally key)
    show ?thesis
    proof (cases out)
      case (Fulfilled v)
      with CatchFinally have "run_handler h out s = (Returns v, s)" by simp
      from returns[OF this] show ?thesis by (rule goal)
    next
      case (RejectedWith e)
      with CatchFinally have "run_handler h out s = after_finally key (ThrowError e) s" by simp
      from fin[OF this] show ?thesis by (intro goal) simp
    qed
  next
    case (ReturnValue v)
    then have "run_handler h out s = (Returns v, s)" by simp
    from returns[OF this] show ?thesis by (rule goal)
  next
    case (ThrowError e)
    then have "run_handler h out s = (Throws e, s)" by simp
    from throws[OF this] show ?thesis by (rule goal)
  next
    case PassOn
    show ?thesis
    proof (cases out)
      case (Fulfilled v)
      with PassOn have "run_handler h out s = (Returns v, s)" by simp
      from returns[OF this] show ?thesis by (rule goal)
    next
      case (RejectedWith e)
      with PassOn have "run_handler h out s = (Throws e, s)" by simp
      from throws[OF this] show ?thesis by (rule goal)
    qed
  next
    case (ResolveOf t)
    with h have t: "t \<in> A" by simp
    show ?thesis
    proof (cases out)
      case (Fulfilled v)
      with ResolveOf have "run_handler h out s = (Returns Undefined, settle t out s)" by simp
      from res[OF this t] show ?thesis by (rule goal)
    next
      case (RejectedWith e)
      with ResolveOf have "run_handler h out s = (Throws e, s)" by simp
      from throws[OF this] show ?thesis by (rule goal)
    qed
  next
    case (RejectOf t)
    with h have t: "t \<in> A" by simp
    show ?thesis
    proof (cases out)
      case (Fulfilled v)
      with RejectOf have "run_handler h out s = (Returns v, s)" by simp
      from returns[OF this] show ?thesis by (rule goal)
    next
      case (RejectedWith e)
      with RejectOf have "run_handler h out s = (Returns Undefined, settle t out s)" by simp
      from res[OF this t] show ?thesis by (rule goal)
    qed
  qed
qed

lemma foreign_mono: "foreign A js \<Longrightarrow> A \<subseteq> B \<Longrightarrow> foreign B js"
  by (auto simp: foreign_def)

subsection \<open>Settled promises stay settled\<close>

















subsection \<open>Every runtime reached from the initial one is bounded\<close>

lemma bounded_new: "bounded new_runtime"
  by (simp add: bounded_def reactions_in_def foreign_def new_runtime_def)

lemma bounded_fields:
  "bounded (s\<lparr>invoked := x\<rparr>) \<longleftrightarrow> bounded s"
  "bounded (s\<lparr>cache := c\<rparr>) \<longleftrightarrow> bounded s"
  by (simp_all add: bounded_def reactions_in_def foreign_def)

lemma bounded_of_effect:
  assumes e: "job_effect {..<fresh s} s s'" and f: "foreign {..<fresh s} (microtasks s)"
  shows "bounded s'"
proof -
  from e have le: "fresh s \<le> fresh s'" by (simp add: job_effect_def)
  then have eq: "{..<fresh s} \<union> {fresh s..<fresh s'} = {..<fresh s'}" by auto
  from le have sub: "{..<fresh s} \<subseteq> {..<fresh s'}" by auto
  from e obtain new where new: "microtasks s' = microtasks s @ new" "foreign {..<fresh s'} new"
    and r: "reactions_in {..<fresh s'} s'"
    unfolding job_effect_def eq foreign_def by blast
  from foreign_mono[OF f sub] new have "foreign {..<fresh s'} (microtasks s')"
    by (auto simp: foreign_def)
  with r show ?thesis by (simp add: bounded_def)
qed

lemma bounded_settle:
  assumes "bounded s" "p < fresh s"
  shows "bounded (settle p out s)"
proof -
  from assms have r: "reactions_in {..<fresh s} s" and f: "foreign {..<fresh s} (microtasks s)"
    and p: "p \<in> {..<fresh s}"
    by (simp_all add: bounded_def)
  from bounded_of_effect[OF settle_effect[OF r p] f] show ?thesis .
qed

lemma bounded_microtask:
  assumes "bounded s"
  shows "bounded (microtask s)"
proof (cases "microtasks s")
  case Nil
  with assms show ?thesis by (simp add: microtask_def)
next
  case (Cons j rest)
  let ?s0 = "s\<lparr>microtasks := rest\<rparr>"
  from assms Cons have r: "reactions_in {..<fresh ?s0} ?s0" and j: "job_refs j \<subseteq> {..<fresh ?s0}"
    and f: "foreign {..<fresh ?s0} (microtasks ?s0)"
    by (simp_all add: bounded_def reactions_in_def foreign_def)
  from bounded_of_effect[OF run_job_effect[OF r j] f] Cons show ?thesis
    by (simp add: microtask_def)
qed

lemma bounded_new_promise:
  assumes b: "bounded s" and st: "\<forall>rs. st = Pending rs \<longrightarrow> rs = []"
  shows "bounded (snd (new_promise st s))"
proof -
  let ?s' = "s\<lparr>promises := (promises s)(fresh s := st), fresh := fresh s + 1\<rparr>"
  have sub: "{..<fresh s} \<subseteq> {..<fresh s + 1}" by auto
  from b have f: "foreign {..<fresh s} (microtasks s)" and r: "reactions_in {..<fresh s} s"
    by (simp_all add: bounded_def)
  have "reactions_in {..<fresh ?s'} ?s'"
    unfolding reactions_in_def
  proof (intro allI impI ballI)
    fix n rs r
    assume n: "n \<in> {..<fresh ?s'}" and p: "promises ?s' n = Pending rs" and rin: "r \<in> set rs"
    show "reaction_refs r \<subseteq> {..<fresh ?s'}"
    proof (cases "n = fresh s")
      case True
      with p st rin show ?thesis by auto
    next
      case False
      with n p have "n \<in> {..<fresh s}" "promises s n = Pending rs" by auto
      with r rin have "reaction_refs r \<subseteq> {..<fresh s}" unfolding reactions_in_def by blast
      with sub show ?thesis by auto
    qed
  qed
  moreover from foreign_mono[OF f sub] have "foreign {..<fresh ?s'} (microtasks ?s')" by simp
  ultimately show ?thesis by (simp add: bounded_def new_promise_def)
qed

lemma bounded_then:
  assumes "bounded s" "p < fresh s" "handler_refs f = {}" "handler_refs g = {}"
  shows "bounded (snd (then_promise p f g s))"
proof -
  from assms have r: "reactions_in {..<fresh s} s" and q: "foreign {..<fresh s} (microtasks s)"
    and p: "p \<in> {..<fresh s}" and h: "handler_refs f \<subseteq> {..<fresh s}" "handler_refs g \<subseteq> {..<fresh s}"
    by (simp_all add: bounded_def)
  from bounded_of_effect[OF then_promise_effect(1)[OF r p h] q] show ?thesis .
qed

lemma bounded_wrap:
  assumes "bounded s"
  shows "bounded (snd (wrap key a s))"
proof (cases "cache s key")
  case (Some p)
  with assms show ?thesis by (simp add: wrap_def)
next
  case None
  let ?s1 = "s\<lparr>invoked := invoked s @ [key]\<rparr>"
  from assms have b1: "bounded ?s1" by (simp add: bounded_fields)
  have step: "bounded (snd (finallyPromise_rt (fresh s) key
      ((snd (new_promise st ?s1))\<lparr>cache := (cache (snd (new_promise st ?s1)))(key \<mapsto> fresh s)\<rparr>)))"
    if "\<forall>rs. st = Pending rs \<longrightarrow> rs = []" for st
  proof -
    from bounded_new_promise[OF b1 that] have "bounded (snd (new_promise st ?s1))" .
    then have "bounded ((snd (new_promise st ?s1))\<lparr>cache := (cache (snd (new_promise st ?s1)))(key \<mapsto> fresh s)\<rparr>)"
      by (simp add: bounded_fields)
    from bounded_then[OF this] show ?thesis
      by (simp add: finallyPromise_rt_def new_promise_def)
  qed
  show ?thesis
  proof (cases a)
    case (Plain v)
    with None step[of "Settled (Fulfilled (Val v))"] show ?thesis
      by (auto simp: wrap_def Let_def new_promise_def split: prod.splits)
  next
    case Later
    with None step[of "Pending []"] show ?thesis
      by (auto simp: wrap_def Let_def new_promise_def split: prod.splits)
  next
    case (Raise e)
    with None b1 show ?thesis by (simp add: wrap_def)
  qed
qed

subsection \<open>While the entry is kept\<close>

lemma cache_settle: "cache (settle p out s) = cache s"
  by (cases "promises s p") (simp_all add: settle_def)

lemma cache_then: "cache (snd (then_promise p f g s)) = cache s"
  by (auto simp: then_promise_def new_promise_def split: promise_state.splits)







lemma acts_append: "acts (es @ es') s = acts es' (acts es s)"
  by (induction es arbitrary: s) simp_all

subsection \<open>Every runtime reached from the initial one is sound\<close>

lemma fresh_settle: "fresh (settle p out s) = fresh s"
  by (cases "promises s p") (simp_all add: settle_def)

lemma fresh_then: "fresh (snd (then_promise p f g s)) = fresh s + 1"
  by (auto simp: then_promise_def new_promise_def split: promise_state.splits)

lemma fresh_wrap: "fresh s \<le> fresh (snd (wrap k a s))"
  by (cases a; cases "cache s k")
     (simp_all add: wrap_def finallyPromise_rt_def Let_def fresh_then new_promise_def
        case_prod_unfold)

lemma cache_wrap:
  "cache (snd (wrap k a s)) k' = Some q \<Longrightarrow> cache s k' = Some q \<or> (k' = k \<and> q = fresh s)"
  by (cases a; cases "cache s k")
     (auto simp: wrap_def finallyPromise_rt_def Let_def cache_then new_promise_def
        case_prod_unfold split: if_splits)

lemma fresh_job: "fresh s \<le> fresh (run_job j s)"
proof (cases j)
  case (Adopt d r)
  then show ?thesis by (simp add: fresh_then)
next
  case (Reaction h out d)
  have "fresh s \<le> fresh (snd (run_handler h out s))"
    by (cases h; cases out)
       (auto simp: fresh_settle after_finally_def Let_def new_promise_def fresh_then
          case_prod_unfold)
  then show ?thesis using Reaction
    by (cases "run_handler h out s"; cases "fst (run_handler h out s)")
       (auto simp: fresh_settle)
qed

lemma fresh_microtask: "fresh s \<le> fresh (microtask s)"
proof (cases "microtasks s")
  case Nil
  then show ?thesis by (simp add: microtask_def)
next
  case (Cons j rest)
  with fresh_job[of "s\<lparr>microtasks := rest\<rparr>" j] show ?thesis by (simp add: microtask_def)
qed

lemma cache_job_shrinks:
  "cache (run_job j s) k = Some q \<Longrightarrow> cache s k = Some q"
proof (cases j)
  case (Adopt d r)
  assume "cache (run_job j s) k = Some q"
  with Adopt show ?thesis by (simp add: cache_then)
next
  case (Reaction h out d)
  assume c: "cache (run_job j s) k = Some q"
  have h: "cache (snd (run_handler h out s)) k = Some q \<Longrightarrow> cache s k = Some q"
    by (cases h; cases out)
       (auto simp: cache_settle after_finally_def Let_def new_promise_def cache_then
          case_prod_unfold split: if_splits)
  from c Reaction have "cache (snd (run_handler h out s)) k = Some q"
    by (cases "run_handler h out s"; cases "fst (run_handler h out s)")
       (auto simp: cache_settle)
  with h show ?thesis .
qed

lemma cache_microtask_shrinks:
  "cache (microtask s) k = Some q \<Longrightarrow> cache s k = Some q"
proof (cases "microtasks s")
  case Nil
  assume "cache (microtask s) k = Some q"
  with Nil show ?thesis by (simp add: microtask_def)
next
  case (Cons j rest)
  assume "cache (microtask s) k = Some q"
  with Cons cache_job_shrinks[of j "s\<lparr>microtasks := rest\<rparr>" k q] show ?thesis
    by (simp add: microtask_def)
qed

lemma sound_new: "sound new_runtime"
  by (simp add: sound_def bounded_new) (simp add: new_runtime_def)

lemma sound_act:
  assumes "sound s"
  shows "sound (act a s)"
proof (cases a)
  case (Call k ans)
  from assms have "bounded (snd (wrap k ans s))" by (simp add: sound_def bounded_wrap)
  moreover have "q < fresh (snd (wrap k ans s))" if "cache (snd (wrap k ans s)) k' = Some q" for k' q
  proof -
    from cache_wrap[OF that] show ?thesis
    proof
      assume "cache s k' = Some q"
      with assms have "q < fresh s" by (auto simp: sound_def)
      with fresh_wrap[of s k ans] show ?thesis by simp
    next
      assume e: "k' = k \<and> q = fresh s"
      with that have "cache s k = None \<or> cache s k = Some (fresh s)"
        by (cases "cache s k") (auto simp: wrap_def)
      with assms have n: "cache s k = None" by (auto simp: sound_def)
      with that e show ?thesis
        by (cases ans)
           (auto simp: wrap_def finallyPromise_rt_def Let_def fresh_then new_promise_def
              case_prod_unfold)
    qed
  qed
  ultimately show ?thesis using Call by (auto simp: sound_def)
next
  case (Answer k out)
  show ?thesis
  proof (cases "cache s k")
    case None
    with Answer assms show ?thesis by simp
  next
    case (Some p)
    with assms have "p < fresh s" by (auto simp: sound_def)
    with assms have "bounded (settle p out s)" by (simp add: sound_def bounded_settle)
    with assms Some Answer show ?thesis by (simp add: sound_def cache_settle fresh_settle)
  qed
next
  case Job
  from assms have "bounded (microtask s)" by (simp add: sound_def bounded_microtask)
  moreover have "q < fresh (microtask s)" if "cache (microtask s) k = Some q" for k q
  proof -
    from cache_microtask_shrinks[OF that] assms have "q < fresh s" by (auto simp: sound_def)
    with fresh_microtask[of s] show ?thesis by simp
  qed
  ultimately show ?thesis using Job by (auto simp: sound_def)
qed

lemma sound_acts: "sound s \<Longrightarrow> sound (acts es s)"
  by (induction es arbitrary: s) (simp_all add: sound_act)

subsection \<open>What other calls do leaves the promises of a call alone\<close>







subsection \<open>From the provider's promise to the first caller's, job by job\<close>







lemma job_refs_finally [simp]:
  "job_refs (job_for out (ThenFinally key, CatchFinally key, d)) = {d}"
  by (cases out) simp_all

lemma job_refs_resolve [simp]:
  "job_refs (job_for out (ResolveOf d, RejectOf d, d')) = {d', d}"
  by (cases out) simp_all

lemma handler_refs_carried [simp]: "handler_refs (carried out) = {}"
  by (cases out) simp_all

lemma foreign_simps [simp]:
  "foreign A []"
  "foreign A (j # js) \<longleftrightarrow> job_refs j \<subseteq> A \<and> foreign A js"
  "foreign A (js @ js') \<longleftrightarrow> foreign A js \<and> foreign A js'"
  by (auto simp: foreign_def)



lemma filter_tail:
  "filter P (j # rest) = j # js \<Longrightarrow> P j \<Longrightarrow> filter P rest = js"
  by simp








subsection \<open>Every step keeps the call in one of its phases\<close>






lemma chain_done_iff:
  "chain key p d ph s \<Longrightarrow> rank ph = 0 \<Longrightarrow> result ph = Some out \<Longrightarrow> promises s d = Settled out"
  by (cases ph) (simp_all add: chain_def)







subsection \<open>The first call, and the jobs that remain\<close>














text \<open>
  Claim C3 as it is stated does not hold: the entry outlives the settling of the call
  until the job runs. A provider that returns a plain value gives a promise that is
  fulfilled from the start; a second call made right after the first finds the entry
  and does not call the provider. Likewise for a provider's promise that has just been
  fulfilled.
\<close>

theorem settled_entry_still_cached:
  "promises (snd (wrap ''/src'' (Plain 1) (new_runtime :: nat runtime))) 0 =
     Settled (Fulfilled (Val 1)) \<and>
   fst (wrap ''/src'' (Plain 2) (snd (wrap ''/src'' (Plain 1) (new_runtime :: nat runtime)))) = Got 0 \<and>
   invoked (snd (wrap ''/src'' (Plain 2) (snd (wrap ''/src'' (Plain 1) (new_runtime :: nat runtime))))) =
     [''/src''] \<and>
   promises (settle 0 (Fulfilled (Val 1)) (snd (wrap ''/src'' Later (new_runtime :: nat runtime)))) 0 =
     Settled (Fulfilled (Val 1)) \<and>
   fst (wrap ''/src'' Later
      (settle 0 (Fulfilled (Val 1)) (snd (wrap ''/src'' Later (new_runtime :: nat runtime))))) = Got 0 \<and>
   invoked (snd (wrap ''/src'' Later
      (settle 0 (Fulfilled (Val 1)) (snd (wrap ''/src'' Later (new_runtime :: nat runtime)))))) =
     [''/src'']"
  by (simp add: wrap_def new_runtime_def runtime_eval)

lemma finally_job_deletes:
  "cache (run_job (job_for out (ThenFinally key, CatchFinally key, d)) s') key = None"
  by (cases out) (simp_all add: runtime_eval)

lemma wrap_invokes:
  "cache s' key = None \<Longrightarrow> invoked (snd (wrap key ans s')) = invoked s' @ [key]"
  by (cases ans) (simp_all add: wrap_def runtime_eval)

text \<open>
  Claim C3, as the code has it. However many callers attached, the cache entry of \<open>key\<close>
  is still there when the promise of the call has just settled: settling queues the job
  of the reaction that \<open>finallyPromise\<close> registered, behind the jobs already queued. That
  job removes the entry, in whatever state it runs, and a call with \<open>key\<close> that finds no
  entry calls the provider. With no other job queued at the first call, the entry is
  gone after one job, while the promise returned to the first caller is still pending,
  and the next call with \<open>key\<close> is the provider's second.
\<close>

theorem entry_removed_by_finally_job:
  assumes "cache s key = None"
  shows "cache (after_calls key answers s) key = Some (fresh s) \<and>
         cache (settle (fresh s) out (after_calls key answers s)) key = Some (fresh s) \<and>
         microtasks (settle (fresh s) out (after_calls key answers s)) =
           microtasks s @ [job_for out (ThenFinally key, CatchFinally key, fresh s + 1)] \<and>
         (\<forall>s'. cache (run_job (job_for out (ThenFinally key, CatchFinally key, fresh s + 1)) s') key =
            None) \<and>
         (\<forall>s' ans. cache s' key = None \<longrightarrow> invoked (snd (wrap key ans s')) = invoked s' @ [key]) \<and>
         (microtasks s = [] \<longrightarrow>
            cache (microtask (settle (fresh s) out (after_calls key answers s))) key = None \<and>
            promises (microtask (settle (fresh s) out (after_calls key answers s))) (fresh s + 1) =
              Pending [] \<and>
            invoked (snd (wrap key ans0
                (microtask (settle (fresh s) out (after_calls key answers s))))) =
              invoked s @ [key, key])"
proof -
  have before: "cache (after_calls key answers s) key = Some (fresh s)"
    "cache (settle (fresh s) out (after_calls key answers s)) key = Some (fresh s)"
    "microtasks (settle (fresh s) out (after_calls key answers s)) =
       microtasks s @ [job_for out (ThenFinally key, CatchFinally key, fresh s + 1)]"
    by (simp_all add: after_calls_state[OF assms] settle_def)
  have scenario: "cache (microtask (settle (fresh s) out (after_calls key answers s))) key = None \<and>
      promises (microtask (settle (fresh s) out (after_calls key answers s))) (fresh s + 1) =
        Pending [] \<and>
      invoked (snd (wrap key ans0
          (microtask (settle (fresh s) out (after_calls key answers s))))) =
        invoked s @ [key, key]"
    if empty: "microtasks s = []"
  proof -
    from empty have gone: "cache (microtask (settle (fresh s) out (after_calls key answers s))) key = None"
      and inv: "invoked (microtask (settle (fresh s) out (after_calls key answers s))) = invoked s @ [key]"
      and pend: "promises (microtask (settle (fresh s) out (after_calls key answers s))) (fresh s + 1) =
        Pending []"
      by (cases out; simp add: after_calls_state[OF assms] runtime_eval)+
    from wrap_invokes[OF gone, of ans0] inv gone pend show ?thesis by simp
  qed
  from before scenario finally_job_deletes wrap_invokes show ?thesis by blast
qed

text \<open>
  Four calls for \<open>/src\<close> share one entry; after the promise is fulfilled and one job has
  run the entry is gone, and the next call is the provider's second.
\<close>

theorem entry_removed_by_finally_job_witness:
  "cache (new_runtime :: nat runtime) ''/src'' = None \<and>
   microtasks (new_runtime :: nat runtime) = [] \<and>
   cache (after_calls ''/src'' [Later, Later, Later] (new_runtime :: nat runtime)) ''/src'' = Some 0 \<and>
   cache (settle 0 (Fulfilled (Val 5))
     (after_calls ''/src'' [Later, Later, Later] (new_runtime :: nat runtime))) ''/src'' = Some 0 \<and>
   cache (microtask (settle 0 (Fulfilled (Val 5))
     (after_calls ''/src'' [Later, Later, Later] (new_runtime :: nat runtime)))) ''/src'' = None \<and>
   invoked (snd (wrap ''/src'' Later (microtask (settle 0 (Fulfilled (Val 5))
     (after_calls ''/src'' [Later, Later, Later] (new_runtime :: nat runtime)))))) =
     [''/src'', ''/src'']"
proof -
  have h1: "cache (new_runtime :: nat runtime) ''/src'' = None"
    and h2: "microtasks (new_runtime :: nat runtime) = []"
    and f: "fresh (new_runtime :: nat runtime) = 0" "invoked (new_runtime :: nat runtime) = []"
    by (simp_all add: new_runtime_def)
  from entry_removed_by_finally_job[OF h1, of "[Later, Later, Later]" "Fulfilled (Val 5)" Later,
      unfolded f append_Nil] h1 h2
  show ?thesis by blast
qed

end
